theory Spec2Isabelle
  imports Complex_Main "HOL-Library.AList"
begin

section \<open>Audio preloader and trial runner of the Cantonese perception experiment\<close>

text \<open>
  A shallow embedding of \<^verbatim>\<open>public/experiment.js\<close> (classes
  \<^verbatim>\<open>SmartAudioPreloader\<close> and \<^verbatim>\<open>CantoneseExperiment\<close>) and of
  \<^verbatim>\<open>src/index.ts\<close> (\<^verbatim>\<open>saveTrial\<close>) with the schema of the D1 tables.

  JavaScript runs one flow of control that suspends at every \<^verbatim>\<open>await\<close>. The
  model keeps this shape: every function runs its synchronous part as one state
  transformation, and an \<^verbatim>\<open>await\<close> consumes events of the environment (a load
  that settles, a timer, the participant's response, the answer to a POST) from an
  explicit list until the awaited one arrives. When the list ends first the function
  has not returned: the result is \<open>None\<close>.
\<close>

subsection \<open>Values\<close>

type_synonym stim_id = nat
type_synonym audio_buffer = nat
type_synonym handle = nat

text \<open>
  The errors the code throws: a fetch that fails or answers with a status that is not ok
  (\<^verbatim>\<open>HTTP ${status}\<close>), \<^verbatim>\<open>decodeAudioData\<close> rejecting, the
  \<^verbatim>\<open>previously failed to load\<close> error of \<^verbatim>\<open>loadAudio\<close> and the
  \<^verbatim>\<open>Could not load initial audio files\<close> error of \<^verbatim>\<open>preloadInitial\<close>.
\<close>

datatype error = FetchFailed | DecodeFailed | PreviouslyFailed stim_id | InitialBatchFailed

datatype promise = Pending | Fulfilled audio_buffer | Rejected error

text \<open>The two callbacks the experiment registers; \<open>None\<close> is the constructor's \<^verbatim>\<open>null\<close>.\<close>

datatype pause_callback = ShowPauseScreen
datatype resume_callback = HidePauseScreen

text \<open>What the two callbacks write to the console: the trace of the waiting overlay.\<close>

datatype notification = EnterWait stim_id | WaitEnded

record trial_data =
  trialNumber :: nat
  stimulusId :: stim_id
  character :: "string option"
  reactionTime :: rat
  timestamp :: int
  wasPaused :: bool

subsection \<open>The state\<close>

text \<open>
  The preloader and the experiment are one record, since the callbacks of the preloader
  are closures over the experiment. A JavaScript \<^verbatim>\<open>Map\<close> is an association list
  in insertion order (\<^verbatim>\<open>set\<close> is \<^const>\<open>AList.update\<close>, \<^verbatim>\<open>delete\<close> is
  \<^const>\<open>AList.delete\<close>), a \<^verbatim>\<open>Set\<close> a list without repetition.
  \<open>promises\<close> is the store of the promises \<^verbatim>\<open>loadAudio\<close> created, each with the
  stimulus it loads, indexed by handle; \<open>fetches\<close> lists the requests
  \<^verbatim>\<open>fetch(`audio/${id}.m4a`)\<close> issued so far.
\<close>

record world =
  totalStimuli :: nat
  bufferAhead :: nat
  audioBuffers :: "(stim_id \<times> audio_buffer) list"
  loadingPromises :: "(stim_id \<times> handle) list"
  loadedCount :: nat
  failedLoads :: "stim_id list"
  loadTimes :: "rat list"
  onPauseCallback :: "pause_callback option"
  onResumeCallback :: "resume_callback option"
  characters :: "string list"
  results :: "trial_data list"
  isPaused :: bool
  overlayShown :: bool
  notified :: "notification list"
  localStorage :: "(nat \<times> trial_data) list"
  promises :: "(stim_id \<times> promise) list"
  fetches :: "stim_id list"

text \<open>\<^verbatim>\<open>new SmartAudioPreloader(audioContext, totalStimuli, bufferAhead)\<close>\<close>

definition new_preloader :: "nat \<Rightarrow> nat \<Rightarrow> world" where
  "new_preloader n ahead =
     \<lparr> totalStimuli = n, bufferAhead = ahead, audioBuffers = [], loadingPromises = [],
       loadedCount = 0, failedLoads = [], loadTimes = [],
       onPauseCallback = None, onResumeCallback = None,
       characters = [], results = [], isPaused = False, overlayShown = False,
       notified = [], localStorage = [], promises = [], fetches = [] \<rparr>"

text \<open>
  \<^verbatim>\<open>new CantoneseExperiment()\<close>: a preloader for 75 stimuli with a window of 3, and
  the two callbacks registered by \<^verbatim>\<open>setPauseResumeCallbacks\<close>.
\<close>

definition setPauseResumeCallbacks ::
  "world \<Rightarrow> pause_callback option \<Rightarrow> resume_callback option \<Rightarrow> world" where
  "setPauseResumeCallbacks w onPause onResume =
     w\<lparr>onPauseCallback := onPause, onResumeCallback := onResume\<rparr>"

definition new_experiment :: "string list \<Rightarrow> world" where
  "new_experiment chars =
     setPauseResumeCallbacks ((new_preloader 75 3)\<lparr>characters := chars\<rparr>)
       (Some ShowPauseScreen) (Some HidePauseScreen)"

subsection \<open>Maps, sets and arrays of JavaScript\<close>

definition has :: "('k \<times> 'v) list \<Rightarrow> 'k \<Rightarrow> bool" where
  "has m k = (map_of m k \<noteq> None)"

definition set_add :: "'a list \<Rightarrow> 'a \<Rightarrow> 'a list" where
  "set_add xs x = (if x \<in> set xs then xs else xs @ [x])"

text \<open>
  \<^verbatim>\<open>Array.prototype.slice(start, end)\<close> on integers: a negative bound counts from
  the end, both bounds are clipped to the array, and an end before the start gives the
  empty array.
\<close>

definition js_slice :: "'a list \<Rightarrow> int \<Rightarrow> int \<Rightarrow> 'a list" where
  "js_slice xs start stop =
     (let len = int (length xs);
          k = (if start < 0 then max (len + start) 0 else min start len);
          final = (if stop < 0 then max (len + stop) 0 else min stop len)
      in take (nat (max (final - k) 0)) (drop (nat k) xs))"

subsection \<open>The callbacks\<close>

definition showPauseScreen :: "world \<Rightarrow> stim_id \<Rightarrow> world" where
  "showPauseScreen w sid =
     w\<lparr>isPaused := True, overlayShown := True, notified := notified w @ [EnterWait sid]\<rparr>"

definition hidePauseScreen :: "world \<Rightarrow> world" where
  "hidePauseScreen w =
     w\<lparr>isPaused := False, overlayShown := False, notified := notified w @ [WaitEnded]\<rparr>"

text \<open>\<^verbatim>\<open>if (this.onPauseCallback) this.onPauseCallback(id)\<close>, and the same for resume.\<close>

definition call_onPause :: "world \<Rightarrow> stim_id \<Rightarrow> world" where
  "call_onPause w sid =
     (case onPauseCallback w of None \<Rightarrow> w | Some ShowPauseScreen \<Rightarrow> showPauseScreen w sid)"

definition call_onResume :: "world \<Rightarrow> world" where
  "call_onResume w =
     (case onResumeCallback w of None \<Rightarrow> w | Some HidePauseScreen \<Rightarrow> hidePauseScreen w)"

subsection \<open>Loading one stimulus\<close>

text \<open>
  The synchronous part of \<^verbatim>\<open>loadAudio\<close>: the check of the failed set, the call of
  \<^verbatim>\<open>fetch\<close>, and the registration of the new promise under the stimulus (the table
  of loads in flight is written, never read). The result is the error of a promise
  rejected at once, or the handle of the pending load.
\<close>

definition loadAudio :: "world \<Rightarrow> stim_id \<Rightarrow> (error + handle) \<times> world" where
  "loadAudio w sid =
     (if sid \<in> set (failedLoads w) then (Inl (PreviouslyFailed sid), w)
      else
        let h = length (promises w)
        in (Inr h,
            w\<lparr>fetches := fetches w @ [sid],
              promises := promises w @ [(sid, Pending)],
              loadingPromises := AList.update sid h (loadingPromises w)\<rparr>))"

text \<open>
  A pending load settles: the \<^verbatim>\<open>then\<close>, \<^verbatim>\<open>catch\<close> and \<^verbatim>\<open>finally\<close>
  handlers of the promise chain of \<^verbatim>\<open>loadAudio\<close> run. They follow each other in
  the microtask queue, and every flow that awaits the load resumes after the last of
  them, so they are one step here. On success the decoded buffer arrives with the measured load time. Settling
  a handle that is unknown or no longer pending does nothing.
\<close>

definition settle :: "world \<Rightarrow> handle \<Rightarrow> error + audio_buffer \<times> rat \<Rightarrow> world" where
  "settle w h out =
     (if h < length (promises w) \<and> snd (promises w ! h) = Pending then
        let sid = fst (promises w ! h)
        in (case out of
              Inr (buf, t) \<Rightarrow>
                w\<lparr>audioBuffers := AList.update sid buf (audioBuffers w),
                  loadedCount := loadedCount w + 1,
                  loadTimes := loadTimes w @ [t],
                  loadingPromises := AList.delete sid (loadingPromises w),
                  promises := (promises w)[h := (sid, Fulfilled buf)]\<rparr>
            | Inl e \<Rightarrow>
                w\<lparr>failedLoads := set_add (failedLoads w) sid,
                  loadingPromises := AList.delete sid (loadingPromises w),
                  promises := (promises w)[h := (sid, Rejected e)]\<rparr>)
      else w)"

subsection \<open>The environment and \<^verbatim>\<open>await\<close>\<close>

text \<open>
  What can happen while the program is suspended: a load settles, a timer of
  \<^verbatim>\<open>sleep\<close> fires, the participant responds or the 16 s timeout of
  \<^verbatim>\<open>waitForResponse\<close> passes (with the reaction time \<^verbatim>\<open>t2 - t1\<close> and the
  value \<^verbatim>\<open>Date.now()\<close> read next), the POST of a trial is answered (ok or not).
\<close>

datatype event =
    Settled handle "error + audio_buffer \<times> rat"
  | TimerFired
  | Responded rat int
  | Posted bool

definition deliver :: "world \<Rightarrow> event \<Rightarrow> world" where
  "deliver w ev = (case ev of Settled h out \<Rightarrow> settle w h out | _ \<Rightarrow> w)"

definition settled :: "world \<Rightarrow> handle \<Rightarrow> (error + audio_buffer) option" where
  "settled w h =
     (if h < length (promises w) then
        (case snd (promises w ! h) of
           Pending \<Rightarrow> None
         | Fulfilled buf \<Rightarrow> Some (Inr buf)
         | Rejected e \<Rightarrow> Some (Inl e))
      else None)"

text \<open>\<^verbatim>\<open>await p\<close> for a promise of the store: events are delivered until it is settled.\<close>

fun await_promise ::
  "world \<Rightarrow> handle \<Rightarrow> event list \<Rightarrow> ((error + audio_buffer) \<times> world \<times> event list) option" where
  "await_promise w h [] =
     (case settled w h of Some r \<Rightarrow> Some (r, w, []) | None \<Rightarrow> None)"
| "await_promise w h (ev # env) =
     (case settled w h of
        Some r \<Rightarrow> Some (r, w, ev # env)
      | None \<Rightarrow> await_promise (deliver w ev) h env)"

text \<open>
  Waiting for an event of the environment itself: events are delivered until one that
  the selector accepts.
\<close>

fun wait_for ::
  "(event \<Rightarrow> 'a option) \<Rightarrow> world \<Rightarrow> event list \<Rightarrow> ('a \<times> world \<times> event list) option" where
  "wait_for sel w [] = None"
| "wait_for sel w (ev # env) =
     (case sel ev of
        Some a \<Rightarrow> Some (a, deliver w ev, env)
      | None \<Rightarrow> wait_for sel (deliver w ev) env)"

definition sleep :: "world \<Rightarrow> event list \<Rightarrow> (unit \<times> world \<times> event list) option" where
  "sleep w env = wait_for (\<lambda>ev. case ev of TimerFired \<Rightarrow> Some () | _ \<Rightarrow> None) w env"

definition waitForResponse ::
  "world \<Rightarrow> event list \<Rightarrow> ((rat \<times> int) \<times> world \<times> event list) option" where
  "waitForResponse w env =
     wait_for (\<lambda>ev. case ev of Responded rt ts \<Rightarrow> Some (rt, ts) | _ \<Rightarrow> None) w env"

subsection \<open>Access to a buffer\<close>

definition getAudioBuffer ::
  "world \<Rightarrow> stim_id \<Rightarrow> bool \<Rightarrow> event list \<Rightarrow>
     ((error + audio_buffer) \<times> world \<times> event list) option" where
  "getAudioBuffer w stimId showPauseUI env =
     (case map_of (audioBuffers w) stimId of
        Some buf \<Rightarrow> Some (Inr buf, w, env)
      | None \<Rightarrow>
         (case map_of (loadingPromises w) stimId of
            Some h \<Rightarrow>
              (let w1 = (if showPauseUI then call_onPause w stimId else w)
               in case await_promise w1 h env of
                    None \<Rightarrow> None
                  | Some (Inl e, w2, env2) \<Rightarrow> Some (Inl e, w2, env2)
                  | Some (Inr buf, w2, env2) \<Rightarrow>
                      Some (Inr buf, if showPauseUI then call_onResume w2 else w2, env2))
          | None \<Rightarrow>
              (let w1 = (if showPauseUI then call_onPause w stimId else w)
               in case loadAudio w1 stimId of
                    (Inl e, w2) \<Rightarrow> Some (Inl e, w2, env)
                  | (Inr h, w2) \<Rightarrow>
                      (case await_promise w2 h env of
                         None \<Rightarrow> None
                       | Some (Inl e, w3, env3) \<Rightarrow> Some (Inl e, w3, env3)
                       | Some (Inr buf, w3, env3) \<Rightarrow>
                           Some (Inr buf, if showPauseUI then call_onResume w3 else w3, env3)))))"

text \<open>
  The trial index is a position of the sequence, a natural number; the runner calls
  \<^verbatim>\<open>ensureNextTrialReady\<close> with indices below the length only, and an index at or
  past the end returns at once.
\<close>

definition ensureNextTrialReady ::
  "world \<Rightarrow> stim_id list \<Rightarrow> nat \<Rightarrow> event list \<Rightarrow>
     ((error + bool) \<times> world \<times> event list) option" where
  "ensureNextTrialReady w sequence currentIndex env =
     (if currentIndex \<ge> length sequence then Some (Inr True, w, env)
      else
        let nextStimId = sequence ! currentIndex
        in if \<not> has (audioBuffers w) nextStimId then
             (let w1 = call_onPause w nextStimId
              in case getAudioBuffer w1 nextStimId False env of
                   None \<Rightarrow> None
                 | Some (Inl e, w2, env2) \<Rightarrow> Some (Inl e, w2, env2)
                 | Some (Inr buf, w2, env2) \<Rightarrow> Some (Inr True, call_onResume w2, env2))
           else Some (Inr True, w, env))"

subsection \<open>Loading ahead\<close>

text \<open>
  \<^verbatim>\<open>preloadAhead\<close> has no \<^verbatim>\<open>await\<close>: it calls \<^verbatim>\<open>loadAudio\<close> for every
  stimulus of \<open>toLoad\<close> and drops the promises.
\<close>

definition toLoad :: "world \<Rightarrow> stim_id list \<Rightarrow> nat \<Rightarrow> stim_id list" where
  "toLoad w sequence currentTrialIndex =
     (let startIdx = int currentTrialIndex + int (bufferAhead w);
          endIdx = min (startIdx + int (bufferAhead w)) (int (length sequence));
          nextBatch = js_slice sequence startIdx endIdx
      in filter (\<lambda>stimId. \<not> has (audioBuffers w) stimId \<and> \<not> has (loadingPromises w) stimId)
           nextBatch)"

definition fire :: "world \<Rightarrow> stim_id list \<Rightarrow> world" where
  "fire w ids = foldl (\<lambda>w' stimId. snd (loadAudio w' stimId)) w ids"

definition preloadAhead :: "world \<Rightarrow> stim_id list \<Rightarrow> nat \<Rightarrow> world" where
  "preloadAhead w sequence currentTrialIndex =
     (let ids = toLoad w sequence currentTrialIndex
      in if length ids = 0 then w else fire w ids)"

text \<open>
  \<^verbatim>\<open>preloadInitial\<close>: \<^verbatim>\<open>loadAudio\<close> is called for the first \<open>bufferAhead\<close>
  stimuli, then \<^verbatim>\<open>Promise.all\<close> is awaited: it rejects as soon as one of the loads
  is rejected and is fulfilled once all are. Any rejection is replaced by the error of
  the initial batch.
\<close>

fun start_all :: "world \<Rightarrow> stim_id list \<Rightarrow> (error + handle) list \<times> world" where
  "start_all w [] = ([], w)"
| "start_all w (stimId # ids) =
     (case loadAudio w stimId of
        (r, w1) \<Rightarrow> (case start_all w1 ids of (rs, w2) \<Rightarrow> (r # rs, w2)))"

definition outcome :: "world \<Rightarrow> error + handle \<Rightarrow> (error + audio_buffer) option" where
  "outcome w r = (case r of Inl e \<Rightarrow> Some (Inl e) | Inr h \<Rightarrow> settled w h)"

definition all_settled :: "world \<Rightarrow> (error + handle) list \<Rightarrow> bool option" where
  "all_settled w rs =
     (if list_ex (\<lambda>r. case outcome w r of Some (Inl e) \<Rightarrow> True | _ \<Rightarrow> False) rs then Some False
      else if list_all (\<lambda>r. case outcome w r of Some (Inr buf) \<Rightarrow> True | _ \<Rightarrow> False) rs
      then Some True
      else None)"

fun await_all ::
  "world \<Rightarrow> (error + handle) list \<Rightarrow> event list \<Rightarrow> (bool \<times> world \<times> event list) option" where
  "await_all w rs [] =
     (case all_settled w rs of Some ok \<Rightarrow> Some (ok, w, []) | None \<Rightarrow> None)"
| "await_all w rs (ev # env) =
     (case all_settled w rs of
        Some ok \<Rightarrow> Some (ok, w, ev # env)
      | None \<Rightarrow> await_all (deliver w ev) rs env)"

definition preloadInitial ::
  "world \<Rightarrow> stim_id list \<Rightarrow> event list \<Rightarrow> ((error + bool) \<times> world \<times> event list) option" where
  "preloadInitial w sequence env =
     (let initialBatch = js_slice sequence 0 (int (bufferAhead w))
      in case start_all w initialBatch of
           (rs, w1) \<Rightarrow>
             (case await_all w1 rs env of
                None \<Rightarrow> None
              | Some (True, w2, env2) \<Rightarrow> Some (Inr True, w2, env2)
              | Some (False, w2, env2) \<Rightarrow> Some (Inl InitialBatchFailed, w2, env2)))"

subsection \<open>Progress and eviction\<close>

text \<open>
  The numbers of \<^verbatim>\<open>getProgress\<close> are exact rationals here, not doubles; a division
  by a zero \<open>totalStimuli\<close> gives \<^verbatim>\<open>NaN\<close> or \<^verbatim>\<open>Infinity\<close> as in JavaScript.
\<close>

datatype js_number = Finite rat | Infinity | NaN

record progress =
  loaded :: nat
  total_stimuli :: nat
  percentage :: js_number
  currentlyLoading :: nat
  failed :: nat
  avgLoadTime :: rat

definition getProgress :: "world \<Rightarrow> progress" where
  "getProgress w =
     \<lparr> loaded = loadedCount w,
       total_stimuli = totalStimuli w,
       percentage =
         (if totalStimuli w = 0 then (if loadedCount w = 0 then NaN else Infinity)
          else Finite (of_nat (loadedCount w) / of_nat (totalStimuli w) * 100)),
       currentlyLoading = length (loadingPromises w),
       failed = length (failedLoads w),
       avgLoadTime =
         (if length (loadTimes w) > 0
          then foldl (+) (hd (loadTimes w)) (tl (loadTimes w)) / of_nat (length (loadTimes w))
          else 0) \<rparr>"

text \<open>
  \<^verbatim>\<open>clearOldBuffers\<close>: index and \<open>keepBehind\<close> are natural numbers, the difference
  is taken in the integers as the code does before \<^verbatim>\<open>Math.max(0, ...)\<close>.
\<close>

definition keepStimuli :: "world \<Rightarrow> stim_id list \<Rightarrow> nat \<Rightarrow> nat \<Rightarrow> stim_id list" where
  "keepStimuli w sequence currentIndex keepBehind =
     js_slice sequence (max 0 (int currentIndex - int keepBehind))
       (int currentIndex + int (bufferAhead w) + 3)"

definition clearOldBuffers :: "world \<Rightarrow> stim_id list \<Rightarrow> nat \<Rightarrow> nat \<Rightarrow> world" where
  "clearOldBuffers w sequence currentIndex keepBehind =
     w\<lparr>audioBuffers :=
         filter (\<lambda>(stimId, buf). stimId \<in> set (keepStimuli w sequence currentIndex keepBehind))
           (audioBuffers w)\<rparr>"

subsection \<open>The trial runner\<close>

text \<open>
  What the runner paints (the character, the blank screen, the progress bar) is not part
  of the state. \<^verbatim>\<open>runTrial\<close> up to \<^verbatim>\<open>source.start(0)\<close>: the character is
  shown, one second passes, the buffer is asked for with the pause screen enabled. The
  result is the buffer that is played and the state at that moment.
\<close>

definition runTrial_start ::
  "world \<Rightarrow> stim_id \<Rightarrow> event list \<Rightarrow> ((error + audio_buffer) \<times> world \<times> event list) option" where
  "runTrial_start w stimId env =
     (case sleep w env of
        None \<Rightarrow> None
      | Some (u, w1, env1) \<Rightarrow> getAudioBuffer w1 stimId True env1)"

definition runTrial ::
  "world \<Rightarrow> stim_id \<Rightarrow> event list \<Rightarrow> ((error + rat \<times> int) \<times> world \<times> event list) option" where
  "runTrial w stimId env =
     (case runTrial_start w stimId env of
        None \<Rightarrow> None
      | Some (Inl e, w1, env1) \<Rightarrow> Some (Inl e, w1, env1)
      | Some (Inr buf, w1, env1) \<Rightarrow>
          (case waitForResponse w1 env1 of
             None \<Rightarrow> None
           | Some (r, w2, env2) \<Rightarrow> Some (Inr r, w2, env2)))"

definition saveToLocalStorage :: "world \<Rightarrow> trial_data \<Rightarrow> world" where
  "saveToLocalStorage w trialData =
     w\<lparr>localStorage := AList.update (trialNumber trialData) trialData (localStorage w)\<rparr>"

text \<open>
  \<^verbatim>\<open>submitTrialResult\<close> never throws: a POST that fails or is answered with a status
  that is not ok stores the trial locally.
\<close>

definition submitTrialResult ::
  "world \<Rightarrow> trial_data \<Rightarrow> event list \<Rightarrow> (unit \<times> world \<times> event list) option" where
  "submitTrialResult w trialData env =
     (case wait_for (\<lambda>ev. case ev of Posted ok \<Rightarrow> Some ok | _ \<Rightarrow> None) w env of
        None \<Rightarrow> None
      | Some (ok, w1, env1) \<Rightarrow>
          Some ((), if ok then w1 else saveToLocalStorage w1 trialData, env1))"

text \<open>\<^verbatim>\<open>this.characters[stimulusId - 1]\<close>, \<open>None\<close> for \<^verbatim>\<open>undefined\<close>.\<close>

definition character_of :: "world \<Rightarrow> stim_id \<Rightarrow> string option" where
  "character_of w stimId =
     (if 1 \<le> stimId \<and> stimId - 1 < length (characters w)
      then Some (characters w ! (stimId - 1)) else None)"

text \<open>The body of the loop of \<^verbatim>\<open>runExperiment\<close> for an index below the length.\<close>

definition trial_iteration ::
  "world \<Rightarrow> stim_id list \<Rightarrow> nat \<Rightarrow> event list \<Rightarrow> ((error + unit) \<times> world \<times> event list) option" where
  "trial_iteration w sequence i env =
     (let stimId = sequence ! i
      in case ensureNextTrialReady w sequence i env of
           None \<Rightarrow> None
         | Some (Inl e, w1, env1) \<Rightarrow> Some (Inl e, w1, env1)
         | Some (Inr ready, w1, env1) \<Rightarrow>
            (let w2 = preloadAhead w1 sequence i
             in case runTrial w2 stimId env1 of
                  None \<Rightarrow> None
                | Some (Inl e, w3, env3) \<Rightarrow> Some (Inl e, w3, env3)
                | Some (Inr (rt, ts), w3, env3) \<Rightarrow>
                   (let trialResult =
                          \<lparr> trialNumber = i + 1, stimulusId = stimId,
                            character = character_of w3 stimId, reactionTime = rt,
                            timestamp = ts, wasPaused = isPaused w3 \<rparr>;
                        w4 = w3\<lparr>results := results w3 @ [trialResult]\<rparr>
                    in case submitTrialResult w4 trialResult env3 of
                         None \<Rightarrow> None
                       | Some (u, w5, env5) \<Rightarrow>
                          (let w6 = (if i mod 10 = 0 \<and> i > 0
                                     then clearOldBuffers w5 sequence i 2 else w5)
                           in case sleep w6 env5 of
                                None \<Rightarrow> None
                              | Some (u', w7, env7) \<Rightarrow> Some (Inr (), w7, env7)))))"

function runExperiment_from ::
  "world \<Rightarrow> stim_id list \<Rightarrow> nat \<Rightarrow> event list \<Rightarrow> ((error + unit) \<times> world \<times> event list) option" where
  "runExperiment_from w sequence i env =
     (if i < length sequence then
        (case trial_iteration w sequence i env of
           None \<Rightarrow> None
         | Some (Inl e, w1, env1) \<Rightarrow> Some (Inl e, w1, env1)
         | Some (Inr u, w1, env1) \<Rightarrow> runExperiment_from w1 sequence (i + 1) env1)
      else Some (Inr (), w, env))"
  by pat_completeness auto
termination
  by (relation "measure (\<lambda>(w, sequence, i, env). length sequence - i)") auto

definition runExperiment ::
  "world \<Rightarrow> stim_id list \<Rightarrow> event list \<Rightarrow> ((error + unit) \<times> world \<times> event list) option" where
  "runExperiment w sequence env = runExperiment_from w sequence 0 env"

section \<open>The backend: \<^verbatim>\<open>saveTrial\<close> on the D1 tables\<close>

text \<open>
  The rows of the tables \<^verbatim>\<open>sessions\<close> and \<^verbatim>\<open>trials\<close> of the migration. The
  statements of \<^verbatim>\<open>saveTrial\<close> run one after the other, outside any transaction.
\<close>

record session_row =
  session_key :: string
  user_agent :: string
  screen_resolution :: string
  total_trials :: int
  first_trial_at :: "int option"
  last_trial_at :: "int option"
  completed_at :: "string option"
  created_at :: string

record trial_row =
  row_id :: nat
  session_id :: string
  trial_number :: nat
  stimulus_id :: nat
  row_character :: "string option"
  reaction_time :: rat
  row_timestamp :: int
  was_paused :: bool
  saved_at :: string

record database =
  sessions :: "session_row list"
  trials :: "trial_row list"
  next_row_id :: nat

record trial_submission =
  sessionId :: string
  userAgent :: string
  screenResolution :: string
  trial :: "trial_data option"

datatype sql_error = UniqueConstraintFailed | ValueNotSupported

text \<open>
  \<^verbatim>\<open>INSERT OR IGNORE INTO sessions\<close>: a row whose primary key is taken is skipped.
\<close>

definition insert_or_ignore_session :: "database \<Rightarrow> session_row \<Rightarrow> database" where
  "insert_or_ignore_session db row =
     (if list_ex (\<lambda>s. session_key s = session_key row) (sessions db) then db
      else db\<lparr>sessions := sessions db @ [row]\<rparr>)"

text \<open>
  \<^verbatim>\<open>INSERT INTO trials\<close>: the statement fails when a row with the same
  \<^verbatim>\<open>(session_id, trial_number)\<close> is stored, by the constraint
  \<^verbatim>\<open>UNIQUE(session_id, trial_number)\<close>; otherwise the row is stored under the next
  value of the \<^verbatim>\<open>AUTOINCREMENT\<close> key. A character that is
  \<^verbatim>\<open>undefined\<close> cannot be bound to the statement, which then throws before it
  runs.
\<close>

definition insert_trial :: "database \<Rightarrow> trial_row \<Rightarrow> sql_error + database" where
  "insert_trial db row =
     (if row_character row = None then Inl ValueNotSupported
      else if list_ex (\<lambda>t. session_id t = session_id row \<and> trial_number t = trial_number row)
           (trials db)
      then Inl UniqueConstraintFailed
      else Inr (db\<lparr>trials := trials db @ [row\<lparr>row_id := next_row_id db\<rparr>],
                   next_row_id := next_row_id db + 1\<rparr>))"

text \<open>\<^verbatim>\<open>UPDATE sessions SET last_trial_at = ? WHERE id = ?\<close>\<close>

definition update_last_trial_at :: "database \<Rightarrow> string \<Rightarrow> int \<Rightarrow> database" where
  "update_last_trial_at db sid ts =
     db\<lparr>sessions :=
          map (\<lambda>s. if session_key s = sid then s\<lparr>last_trial_at := Some ts\<rparr> else s)
            (sessions db)\<rparr>"

text \<open>
  \<^verbatim>\<open>saveTrial\<close>: the result is the error thrown, if any, and the tables as the
  statements that ran left them. \<open>now\<close> is the time of the call as text.
\<close>

definition saveTrial ::
  "database \<Rightarrow> string \<Rightarrow> string \<Rightarrow> string \<Rightarrow> trial_data \<Rightarrow> string \<Rightarrow>
     sql_error option \<times> database" where
  "saveTrial db sid agent resolution t now =
     (let db1 = insert_or_ignore_session db
                  \<lparr> session_key = sid, user_agent = agent, screen_resolution = resolution,
                    total_trials = 0, first_trial_at = Some (timestamp t),
                    last_trial_at = None, completed_at = None, created_at = now \<rparr>
      in case insert_trial db1
                \<lparr> row_id = 0, session_id = sid, trial_number = trialNumber t,
                  stimulus_id = stimulusId t, row_character = character t,
                  reaction_time = reactionTime t, row_timestamp = timestamp t,
                  was_paused = wasPaused t, saved_at = now \<rparr> of
           Inl e \<Rightarrow> (Some e, db1)
         | Inr db2 \<Rightarrow> (None, update_last_trial_at db2 sid (timestamp t)))"

text \<open>
  The handler of \<^verbatim>\<open>POST /api/trial\<close>: status 400 for a submission without session
  identifier or trial, 500 when \<^verbatim>\<open>saveTrial\<close> throws, 200 otherwise.
\<close>

definition post_trial :: "database \<Rightarrow> trial_submission \<Rightarrow> string \<Rightarrow> nat \<times> database" where
  "post_trial db d now =
     (case trial d of
        None \<Rightarrow> (400, db)
      | Some t \<Rightarrow>
          if sessionId d = [] then (400, db)
          else (case saveTrial db (sessionId d) (userAgent d) (screenResolution d) t now of
                  (Some e, db1) \<Rightarrow> (500, db1)
                | (None, db1) \<Rightarrow> (200, db1)))"

section \<open>Invariant, specification-side definitions and scenarios\<close>

text \<open>
  The invariant of the table of loads in flight: every entry is the handle of a pending
  promise that loads the stimulus of its key.
\<close>

definition in_flight_pending :: "world \<Rightarrow> bool" where
  "in_flight_pending w =
     list_all (\<lambda>(stimId, h). h < length (promises w) \<and> promises w ! h = (stimId, Pending))
       (loadingPromises w)"

text \<open>
  What the result of a call of \<^verbatim>\<open>loadAudio\<close> for a stimulus says about the
  state: a call rejected at once found the stimulus in the failed set; a handle is a
  promise of the store for that stimulus, which once fulfilled has filled the cache and
  once rejected has put the stimulus into the failed set.
\<close>

definition load_of :: "world \<Rightarrow> error + handle \<Rightarrow> stim_id \<Rightarrow> bool" where
  "load_of w r stimId =
     (case r of
        Inl e \<Rightarrow> stimId \<in> set (failedLoads w)
      | Inr h \<Rightarrow>
          h < length (promises w) \<and> fst (promises w ! h) = stimId \<and>
          (case snd (promises w ! h) of
             Pending \<Rightarrow> True
           | Fulfilled buf \<Rightarrow> has (audioBuffers w) stimId
           | Rejected e \<Rightarrow> stimId \<in> set (failedLoads w)))"

text \<open>
  The invariant of the preloader in the running program: the table of loads in flight
  holds exactly the pending promises, each under the stimulus it loads (so at most one
  load of a stimulus is pending at any time); a stimulus in the failed set is neither
  cached nor in flight; a stimulus in flight is not cached.
\<close>

definition preloader_invariant :: "world \<Rightarrow> bool" where
  "preloader_invariant w =
     (in_flight_pending w
      \<and> list_all (\<lambda>h. snd (promises w ! h) \<noteq> Pending \<or>
                        map_of (loadingPromises w) (fst (promises w ! h)) = Some h)
           [0 ..< length (promises w)]
      \<and> list_all (\<lambda>stimId. \<not> has (audioBuffers w) stimId \<and> \<not> has (loadingPromises w) stimId)
           (failedLoads w)
      \<and> list_all (\<lambda>(stimId, h). \<not> has (audioBuffers w) stimId) (loadingPromises w))"


text \<open>The state after all events of a list have been delivered.\<close>

definition deliver_all :: "world \<Rightarrow> event list \<Rightarrow> world" where
  "deliver_all w env = foldl deliver w env"

text \<open>
  The look-ahead window in the words of the specification: the stimuli at the positions
  from \<open>currentIndex + windowSize\<close> up to \<open>currentIndex + 2 * windowSize\<close>, clipped to
  the sequence, that are neither cached nor in flight.
\<close>

definition ahead_ids :: "world \<Rightarrow> stim_id list \<Rightarrow> nat \<Rightarrow> stim_id list" where
  "ahead_ids w sequence currentIndex =
     filter (\<lambda>stimId. \<not> has (audioBuffers w) stimId \<and> \<not> has (loadingPromises w) stimId)
       (map (\<lambda>p. sequence ! p)
          [currentIndex + bufferAhead w ..<
             min (currentIndex + 2 * bufferAhead w) (length sequence)])"

text \<open>The state a run ends in; the state it started from when it did not return.\<close>

definition final_state :: "world \<Rightarrow> ('a \<times> world \<times> event list) option \<Rightarrow> world" where
  "final_state w r = (case r of None \<Rightarrow> w | Some (a, w', env) \<Rightarrow> w')"

text \<open>
  A session of four trials: the first window of three loads, then the first trial starts
  the load of stimulus 4, which is still pending when the fourth trial begins.
\<close>

definition demo_sequence :: "stim_id list" where
  "demo_sequence = [1, 2, 3, 4]"

definition demo_loaded :: world where
  "demo_loaded =
     final_state (new_experiment [''a'', ''b'', ''c'', ''d''])
       (preloadInitial (new_experiment [''a'', ''b'', ''c'', ''d'']) demo_sequence
          [Settled 0 (Inr (10, 5)), Settled 1 (Inr (20, 5)), Settled 2 (Inr (30, 5))])"

definition demo_three_trials :: "event list" where
  "demo_three_trials =
     [TimerFired, Responded 700 1000, Posted True, TimerFired,
      TimerFired, Responded 650 2000, Posted True, TimerFired,
      TimerFired, Responded 720 3000, Posted True, TimerFired]"

text \<open>The first \<open>n\<close> iterations of the loop from index \<open>i\<close>, as far as they return.\<close>

fun iterate_trials :: "world \<Rightarrow> stim_id list \<Rightarrow> nat \<Rightarrow> nat \<Rightarrow> event list \<Rightarrow> world" where
  "iterate_trials w sequence i 0 env = w"
| "iterate_trials w sequence i (Suc n) env =
     (case trial_iteration w sequence i env of
        Some (Inr u, w1, env1) \<Rightarrow> iterate_trials w1 sequence (Suc i) n env1
      | _ \<Rightarrow> w)"

definition demo_fourth :: world where
  "demo_fourth = iterate_trials demo_loaded demo_sequence 0 3 demo_three_trials"

text \<open>The fourth trial waits for the load of stimulus 4, which then succeeds.\<close>

definition demo_ready :: world where
  "demo_ready =
     final_state demo_fourth
       (ensureNextTrialReady demo_fourth demo_sequence 3
          [Settled 3 (Inr (40, 9000)), TimerFired])"

text \<open>The same fourth trial when the load of stimulus 4 fails instead.\<close>

definition demo_stuck :: world where
  "demo_stuck =
     final_state demo_fourth
       (ensureNextTrialReady demo_fourth demo_sequence 3 [Settled 3 (Inl FetchFailed)])"

text \<open>The session after the fourth trial, which had to wait for its buffer.\<close>

definition demo_fourth_trial :: "event list" where
  "demo_fourth_trial =
     [Settled 3 (Inr (40, 9000)), TimerFired, Responded 700 4000, Posted True, TimerFired]"

definition demo_done :: world where
  "demo_done =
     final_state demo_fourth (trial_iteration demo_fourth demo_sequence 3 demo_fourth_trial)"

text \<open>The initial window of the same session when the second load fails.\<close>

definition demo_failed_start :: world where
  "demo_failed_start =
     final_state (new_experiment [''a'', ''b'', ''c'', ''d''])
       (preloadInitial (new_experiment [''a'', ''b'', ''c'', ''d'']) demo_sequence
          [Settled 0 (Inr (10, 5)), Settled 1 (Inl FetchFailed)])"

text \<open>
  A session of eight trials in which the look-ahead load of stimulus 6, started by the
  first trial, fails while that trial runs; \<open>long_second\<close> is the state in which the
  second trial begins.
\<close>

definition long_sequence :: "stim_id list" where
  "long_sequence = [1, 2, 3, 4, 5, 6, 7, 8]"

definition long_loaded :: world where
  "long_loaded =
     final_state (new_experiment [])
       (preloadInitial (new_experiment []) long_sequence
          [Settled 0 (Inr (10, 5)), Settled 1 (Inr (20, 5)), Settled 2 (Inr (30, 5))])"

definition long_second :: world where
  "long_second =
     iterate_trials long_loaded long_sequence 0 1
       [TimerFired, Settled 3 (Inr (40, 900)), Settled 4 (Inr (50, 950)),
        Settled 5 (Inl FetchFailed), Responded 700 1000, Posted True, TimerFired]"

text \<open>The scenario of the specification: a window of 2 on the sequence 3 1 4 1 5 9 2 6.\<close>

definition pi_sequence :: "stim_id list" where
  "pi_sequence = [3, 1, 4, 1, 5, 9, 2, 6]"

definition pi_loaded :: world where
  "pi_loaded =
     final_state (new_preloader 8 2)
       (preloadInitial (new_preloader 8 2) pi_sequence
          [Settled 1 (Inr (10, 5)), Settled 0 (Inr (30, 7))])"

text \<open>A submission of the first trial of a session, and the tables before any write.\<close>

definition empty_database :: database where
  "empty_database = \<lparr> sessions = [], trials = [], next_row_id = 1 \<rparr>"

definition demo_submission :: trial_submission where
  "demo_submission =
     \<lparr> sessionId = ''s1'', userAgent = ''agent'', screenResolution = ''1920x1080'',
       trial = Some \<lparr> trialNumber = 1, stimulusId = 5, character = Some ''x'',
                      reactionTime = 700, timestamp = 1000, wasPaused = False \<rparr> \<rparr>"

text \<open>The rows of the table of trials stored for a session and a trial number.\<close>

definition stored :: "database \<Rightarrow> string \<Rightarrow> nat \<Rightarrow> trial_row list" where
  "stored db sid n = filter (\<lambda>r. session_id r = sid \<and> trial_number r = n) (trials db)"

text \<open>
  The same sequence with a window of 4: stimulus 1 stands twice in the first window. Its
  first load succeeds and its second load fails.
\<close>

definition pi_twice :: world where
  "pi_twice =
     final_state (new_preloader 8 4)
       (preloadInitial (new_preloader 8 4) pi_sequence
          [Settled 0 (Inr (30, 5)), Settled 1 (Inr (10, 5)), Settled 2 (Inr (40, 5)),
           Settled 3 (Inl FetchFailed)])"

text \<open>One stimulus loaded, evicted and loaded again, with a total of one stimulus.\<close>

definition reloaded :: world where
  "reloaded =
     (let w1 = settle (snd (loadAudio (new_preloader 1 3) 1)) 0 (Inr (10, 5));
          w2 = clearOldBuffers w1 [] 0 2;
          w3 = settle (snd (loadAudio w2 1)) 1 (Inr (11, 6))
      in w3)"

text \<open>A stimulus loaded with success, then loaded again without success.\<close>

definition cached_and_failed :: world where
  "cached_and_failed =
     (let w1 = settle (snd (loadAudio (new_preloader 75 3) 7)) 0 (Inr (70, 5))
      in settle (snd (loadAudio w1 7)) 1 (Inl FetchFailed))"

section \<open>Arrays and association lists\<close>

lemma js_slice_nat: "js_slice xs (int a) (int b) = take (b - a) (drop a xs)"
proof (cases "a < length xs")
  case True
  then show ?thesis
    by (cases "b \<le> length xs") (simp_all add: js_slice_def Let_def min_def max_def nat_diff_distrib')
next
  case False
  then show ?thesis
    by (simp add: js_slice_def Let_def min_def max_def)
qed

lemma take_drop_positions:
  "take n (drop a xs) = map (\<lambda>p. xs ! p) [a ..< min (a + n) (length xs)]"
  by (rule nth_equalityI) auto

lemma js_slice_positions:
  "js_slice xs (int a) (int b) = map (\<lambda>p. xs ! p) [a ..< min b (length xs)]"
proof (cases "a \<le> b")
  case True
  then show ?thesis
    by (simp add: js_slice_nat take_drop_positions)
next
  case False
  then show ?thesis
    by (simp add: js_slice_nat)
qed

lemma set_js_slice:
  "set (js_slice xs (int a) (int b)) = {xs ! p | p. a \<le> p \<and> p < b \<and> p < length xs}"
  by (auto simp: js_slice_positions)

lemma js_slice_take: "js_slice xs 0 (int k) = take k xs"
  using js_slice_nat [of xs 0 k] by simp

section \<open>Eviction\<close>

lemma keepStimuli_positions:
  "set (keepStimuli w sequence currentIndex keepBehind) =
     {sequence ! p | p. currentIndex - keepBehind \<le> p \<and> p < currentIndex + bufferAhead w + 3
        \<and> p < length sequence}"
proof -
  have a: "max 0 (int currentIndex - int keepBehind) = int (currentIndex - keepBehind)"
    by linarith
  have b: "int currentIndex + int (bufferAhead w) + 3 = int (currentIndex + bufferAhead w + 3)"
    by simp
  show ?thesis
    unfolding keepStimuli_def a b by (rule set_js_slice)
qed

lemma map_of_clearOldBuffers:
  "map_of (audioBuffers (clearOldBuffers w sequence currentIndex keepBehind)) stimId =
     (if stimId \<in> set (keepStimuli w sequence currentIndex keepBehind)
      then map_of (audioBuffers w) stimId else None)"
  by (simp add: clearOldBuffers_def AList.restrict_eq [symmetric] AList.restr_conv' restrict_map_def)

text \<open>
  Claim C8. After \<^verbatim>\<open>clearOldBuffers(sequence, currentIndex, keepBehind)\<close> every
  stimulus that is still cached stands at a position of the sequence in the range from
  \<open>max 0 (currentIndex - keepBehind)\<close> up to \<open>currentIndex + bufferAhead + 3\<close>
  (so no stimulus all of whose occurrences lie outside that range is cached), and the
  cache entry of every stimulus at a position of that range is what it was before the
  call.
\<close>

theorem clearOldBuffers_retains_window:
  "(\<forall>stimId. has (audioBuffers (clearOldBuffers w sequence currentIndex keepBehind)) stimId \<longrightarrow>
      (\<exists>p. nat (max 0 (int currentIndex - int keepBehind)) \<le> p \<and>
           p < currentIndex + bufferAhead w + 3 \<and> p < length sequence \<and> sequence ! p = stimId))
   \<and> (\<forall>p. nat (max 0 (int currentIndex - int keepBehind)) \<le> p \<and>
           p < currentIndex + bufferAhead w + 3 \<and> p < length sequence \<longrightarrow>
         map_of (audioBuffers (clearOldBuffers w sequence currentIndex keepBehind)) (sequence ! p) =
         map_of (audioBuffers w) (sequence ! p))"
proof -
  have lo: "nat (max 0 (int currentIndex - int keepBehind)) = currentIndex - keepBehind"
    by linarith
  show ?thesis
    unfolding lo has_def map_of_clearOldBuffers keepStimuli_positions
    by (auto split: if_splits)
qed


theorem clearOldBuffers_retains_window_witness:
  "audioBuffers (clearOldBuffers demo_loaded [1, 5, 6, 7, 2, 8 :: nat] 4 2) = [(2, 20)]
   \<and> (\<exists>p. nat (max 0 (int 4 - int 2)) \<le> p \<and> p < 4 + bufferAhead demo_loaded + 3 \<and>
            p < length [1, 5, 6, 7, 2, 8 :: nat] \<and> [1, 5, 6, 7, 2, 8 :: nat] ! p = 2)
   \<and> map_of (audioBuffers (clearOldBuffers demo_loaded [1, 5, 6, 7, 2, 8 :: nat] 4 2)) ([1, 5, 6, 7, 2, 8 :: nat] ! 4)
       = map_of (audioBuffers demo_loaded) ([1, 5, 6, 7, 2, 8 :: nat] ! 4)"
proof -
  note t = clearOldBuffers_retains_window [of demo_loaded "[1, 5, 6, 7, 2, 8 :: nat]" 4 2]
  have c: "audioBuffers (clearOldBuffers demo_loaded [1, 5, 6, 7, 2, 8 :: nat] 4 2) = [(2, 20)]"
    by code_simp
  have k: "bufferAhead demo_loaded = 3"
    by code_simp
  have h: "has (audioBuffers (clearOldBuffers demo_loaded [1, 5, 6, 7, 2, 8 :: nat] 4 2)) 2"
    unfolding c by (simp add: has_def)
  have r: "nat (max 0 (int 4 - int 2)) \<le> 4 \<and> 4 < 4 + bufferAhead demo_loaded + 3
            \<and> (4::nat) < length [1, 5, 6, 7, 2, 8 :: nat]"
    unfolding k by simp
  from t have "has (audioBuffers (clearOldBuffers demo_loaded [1, 5, 6, 7, 2, 8 :: nat] 4 2)) 2 \<longrightarrow>
      (\<exists>p. nat (max 0 (int 4 - int 2)) \<le> p \<and> p < 4 + bufferAhead demo_loaded + 3 \<and>
            p < length [1, 5, 6, 7, 2, 8 :: nat] \<and> [1, 5, 6, 7, 2, 8 :: nat] ! p = 2)"
    by (rule conjunct1 [THEN spec])
  with h have ex: "\<exists>p. nat (max 0 (int 4 - int 2)) \<le> p \<and> p < 4 + bufferAhead demo_loaded + 3 \<and>
            p < length [1, 5, 6, 7, 2, 8 :: nat] \<and> [1, 5, 6, 7, 2, 8 :: nat] ! p = 2"
    by (rule rev_mp)
  from t have "nat (max 0 (int 4 - int 2)) \<le> 4 \<and> 4 < 4 + bufferAhead demo_loaded + 3
            \<and> (4::nat) < length [1, 5, 6, 7, 2, 8 :: nat] \<longrightarrow>
     map_of (audioBuffers (clearOldBuffers demo_loaded [1, 5, 6, 7, 2, 8 :: nat] 4 2)) ([1, 5, 6, 7, 2, 8 :: nat] ! 4)
       = map_of (audioBuffers demo_loaded) ([1, 5, 6, 7, 2, 8 :: nat] ! 4)"
    by (rule conjunct2 [THEN spec])
  with r have m: "map_of (audioBuffers (clearOldBuffers demo_loaded [1, 5, 6, 7, 2, 8 :: nat] 4 2)) ([1, 5, 6, 7, 2, 8 :: nat] ! 4)
       = map_of (audioBuffers demo_loaded) ([1, 5, 6, 7, 2, 8 :: nat] ! 4)"
    by (rule rev_mp)
  show ?thesis
    by (rule conjI [OF c conjI [OF ex m]])
qed

section \<open>Loading and settling\<close>

lemma loadAudio_failed:
  "stimId \<in> set (failedLoads w) \<Longrightarrow> loadAudio w stimId = (Inl (PreviouslyFailed stimId), w)"
  by (simp add: loadAudio_def)

lemma loadAudio_fresh:
  "stimId \<notin> set (failedLoads w) \<Longrightarrow>
     loadAudio w stimId =
       (Inr (length (promises w)),
        w\<lparr>fetches := fetches w @ [stimId],
          promises := promises w @ [(stimId, Pending)],
          loadingPromises := AList.update stimId (length (promises w)) (loadingPromises w)\<rparr>)"
  by (simp add: loadAudio_def Let_def)

lemma loadAudio_fields [simp]:
  "audioBuffers (snd (loadAudio w stimId)) = audioBuffers w"
  "failedLoads (snd (loadAudio w stimId)) = failedLoads w"
  "loadedCount (snd (loadAudio w stimId)) = loadedCount w"
  "loadTimes (snd (loadAudio w stimId)) = loadTimes w"
  "isPaused (snd (loadAudio w stimId)) = isPaused w"
  "overlayShown (snd (loadAudio w stimId)) = overlayShown w"
  "notified (snd (loadAudio w stimId)) = notified w"
  "onPauseCallback (snd (loadAudio w stimId)) = onPauseCallback w"
  "onResumeCallback (snd (loadAudio w stimId)) = onResumeCallback w"
  "bufferAhead (snd (loadAudio w stimId)) = bufferAhead w"
  by (simp_all add: loadAudio_def Let_def)

lemma loadAudio_fetches:
  "fetches (snd (loadAudio w stimId)) =
     fetches w @ (if stimId \<in> set (failedLoads w) then [] else [stimId])"
  by (simp add: loadAudio_def Let_def)

lemma loadAudio_promises:
  "promises (snd (loadAudio w stimId)) =
     promises w @ (if stimId \<in> set (failedLoads w) then [] else [(stimId, Pending)])"
  by (simp add: loadAudio_def Let_def)

lemma settle_fields [simp]:
  "fetches (settle w h out) = fetches w"
  "isPaused (settle w h out) = isPaused w"
  "overlayShown (settle w h out) = overlayShown w"
  "notified (settle w h out) = notified w"
  "onPauseCallback (settle w h out) = onPauseCallback w"
  "onResumeCallback (settle w h out) = onResumeCallback w"
  "bufferAhead (settle w h out) = bufferAhead w"
  "length (promises (settle w h out)) = length (promises w)"
  by (simp_all add: settle_def Let_def split: sum.splits prod.splits)

lemma settle_success_counts:
  "h < length (promises w) \<Longrightarrow> snd (promises w ! h) = Pending \<Longrightarrow>
     loadedCount (settle w h (Inr (buf, t))) = loadedCount w + 1"
  by (simp add: settle_def Let_def)

lemma settle_keeps_cached:
  "has (audioBuffers w) stimId \<Longrightarrow> has (audioBuffers (settle w h out)) stimId"
  by (auto simp: settle_def Let_def has_def AList.update_conv' split: sum.splits prod.splits)

lemma settle_stimulus:
  "h' < length (promises w) \<Longrightarrow>
     fst (promises (settle w h out) ! h') = fst (promises w ! h')"
  by (auto simp: settle_def Let_def nth_list_update split: sum.splits prod.splits)

lemma settle_other:
  "h' \<noteq> h \<Longrightarrow> promises (settle w h out) ! h' = promises w ! h'"
  by (auto simp: settle_def Let_def split: sum.splits prod.splits)

lemma settle_this:
  assumes "h < length (promises w)" "promises w ! h = (stimId, Pending)"
  shows "(case out of
            Inr (buf, t) \<Rightarrow>
              promises (settle w h out) ! h = (stimId, Fulfilled buf) \<and>
              map_of (audioBuffers (settle w h out)) stimId = Some buf
          | Inl e \<Rightarrow> promises (settle w h out) ! h = (stimId, Rejected e))"
  using assms
  by (auto simp: settle_def Let_def AList.update_conv' split: sum.splits prod.splits)

text \<open>
  \<^verbatim>\<open>loadAudio\<close> by itself does not look at the table of loads in flight: called
  directly for a stimulus whose load is pending it fetches again, and so does
  \<^verbatim>\<open>preloadInitial\<close> on a sequence that repeats a stimulus within the first window.
  No call site of the program does either: see the invariant of the preloader below.
\<close>

lemma direct_calls_fetch_twice:
  "has (loadingPromises (snd (loadAudio (new_preloader 75 3) 7))) 7
   \<and> fst (loadAudio (new_preloader 75 3) 7) = Inr 0
   \<and> fst (loadAudio (snd (loadAudio (new_preloader 75 3) 7)) 7) = Inr 1
   \<and> fetches (snd (loadAudio (snd (loadAudio (new_preloader 75 3) 7)) 7)) = [7, 7]
   \<and> promises (settle (settle (snd (loadAudio (snd (loadAudio (new_preloader 75 3) 7)) 7))
         0 (Inr (70, 5))) 1 (Inl FetchFailed)) = [(7, Fulfilled 70), (7, Rejected FetchFailed)]
   \<and> loadedCount (settle (settle (snd (loadAudio (snd (loadAudio (new_preloader 75 3) 7)) 7))
         0 (Inr (70, 5))) 1 (Inr (71, 6))) = 2
   \<and> preloadInitial (new_preloader 8 4) pi_sequence
         [Settled 0 (Inr (30, 5)), Settled 1 (Inr (10, 5)), Settled 2 (Inr (40, 5)),
          Settled 3 (Inl FetchFailed)] = Some (Inl InitialBatchFailed, pi_twice, [])
   \<and> fetches pi_twice = [3, 1, 4, 1]
   \<and> promises pi_twice =
        [(3, Fulfilled 30), (1, Fulfilled 10), (4, Fulfilled 40), (1, Rejected FetchFailed)]"
  by code_simp

section \<open>Progress\<close>

lemma avgLoadTime_empty: "loadTimes w = [] \<Longrightarrow> avgLoadTime (getProgress w) = 0"
  by (simp add: getProgress_def)

lemma reloaded_progress:
  "loaded (getProgress reloaded) = 2 \<and> length (audioBuffers reloaded) = 1
   \<and> percentage (getProgress reloaded) = Finite 200"
  by (simp add: getProgress_def reloaded_def loadAudio_def settle_def new_preloader_def
      clearOldBuffers_def keepStimuli_def js_slice_def Let_def set_add_def)

section \<open>Loading ahead\<close>

lemma toLoad_ahead_ids: "toLoad w sequence i = ahead_ids w sequence i"
proof -
  have a: "int i + int (bufferAhead w) = int (i + bufferAhead w)"
    by simp
  have b: "min (int (i + bufferAhead w) + int (bufferAhead w)) (int (length sequence)) =
           int (min (i + 2 * bufferAhead w) (length sequence))"
    by simp
  show ?thesis
    unfolding toLoad_def ahead_ids_def Let_def a b js_slice_positions by simp
qed

lemma fire_Nil [simp]: "fire w [] = w"
  by (simp add: fire_def)

lemma fire_Cons [simp]: "fire w (stimId # ids) = fire (snd (loadAudio w stimId)) ids"
  by (simp add: fire_def)

lemma fire_fields [simp]:
  "audioBuffers (fire w ids) = audioBuffers w"
  "failedLoads (fire w ids) = failedLoads w"
  "isPaused (fire w ids) = isPaused w"
  "overlayShown (fire w ids) = overlayShown w"
  "notified (fire w ids) = notified w"
  "onPauseCallback (fire w ids) = onPauseCallback w"
  "onResumeCallback (fire w ids) = onResumeCallback w"
  "bufferAhead (fire w ids) = bufferAhead w"
  by (induction ids arbitrary: w; simp)+

lemma fire_fetches:
  "fetches (fire w ids) = fetches w @ filter (\<lambda>stimId. stimId \<notin> set (failedLoads w)) ids"
  by (induction ids arbitrary: w) (simp_all add: loadAudio_fetches)

lemma fire_promises:
  "promises (fire w ids) =
     promises w @ map (\<lambda>stimId. (stimId, Pending))
                    (filter (\<lambda>stimId. stimId \<notin> set (failedLoads w)) ids)"
  by (induction ids arbitrary: w) (simp_all add: loadAudio_promises)

lemma loadAudio_in_flight_keys:
  "fst ` set (loadingPromises (snd (loadAudio w stimId))) =
     fst ` set (loadingPromises w) \<union> (if stimId \<in> set (failedLoads w) then {} else {stimId})"
  by (simp add: loadAudio_def Let_def AList.dom_update)

lemma fire_in_flight_keys:
  "fst ` set (loadingPromises (fire w ids)) =
     fst ` set (loadingPromises w) \<union> {stimId \<in> set ids. stimId \<notin> set (failedLoads w)}"
  by (induction ids arbitrary: w) (auto simp: loadAudio_in_flight_keys)

lemma preloadAhead_fire: "preloadAhead w sequence i = fire w (ahead_ids w sequence i)"
  by (simp add: preloadAhead_def Let_def toLoad_ahead_ids)

lemma pi_loaded_ahead:
  "has (audioBuffers pi_loaded) 3 \<and> has (audioBuffers pi_loaded) 1
   \<and> ahead_ids pi_loaded pi_sequence 0 = [4]
   \<and> fetches (preloadAhead pi_loaded pi_sequence 0) = fetches pi_loaded @ [4]"
  by code_simp

text \<open>
  Claim C9 as the code has it. \<^verbatim>\<open>preloadAhead(sequence, i)\<close> calls \<^verbatim>\<open>loadAudio\<close> for exactly
  the stimuli at the positions from \<open>i + bufferAhead\<close> up to
  \<open>min (i + 2 * bufferAhead) (length sequence)\<close> that are neither cached nor in flight, in
  the order of the sequence; each of these calls issues a fetch and registers a pending
  promise unless the stimulus is in the failed set; nothing is awaited, the new promises
  are pending when the function returns and the cache is unchanged; with no such stimulus
  the state is unchanged. On the sequence 3 1 4 1 5 9 2 6 with a window of 2, after the
  initial window has cached 3 and 1, the call at index 0 starts the load of 4 only.
\<close>

theorem preloadAhead_window:
  "toLoad w sequence i = ahead_ids w sequence i
   \<and> preloadAhead w sequence i = fire w (ahead_ids w sequence i)
   \<and> (ahead_ids w sequence i = [] \<longrightarrow> preloadAhead w sequence i = w)
   \<and> fetches (preloadAhead w sequence i) =
       fetches w @ filter (\<lambda>stimId. stimId \<notin> set (failedLoads w)) (ahead_ids w sequence i)
   \<and> promises (preloadAhead w sequence i) =
       promises w @ map (\<lambda>stimId. (stimId, Pending))
         (filter (\<lambda>stimId. stimId \<notin> set (failedLoads w)) (ahead_ids w sequence i))
   \<and> fst ` set (loadingPromises (preloadAhead w sequence i)) =
       fst ` set (loadingPromises w) \<union>
       {stimId \<in> set (ahead_ids w sequence i). stimId \<notin> set (failedLoads w)}
   \<and> audioBuffers (preloadAhead w sequence i) = audioBuffers w
   \<and> has (audioBuffers pi_loaded) 3 \<and> has (audioBuffers pi_loaded) 1
   \<and> ahead_ids pi_loaded pi_sequence 0 = [4]
   \<and> fetches (preloadAhead pi_loaded pi_sequence 0) = fetches pi_loaded @ [4]"
proof -
  have 1: "toLoad w sequence i = ahead_ids w sequence i"
    by (rule toLoad_ahead_ids)
  have 2: "preloadAhead w sequence i = fire w (ahead_ids w sequence i)"
    by (rule preloadAhead_fire)
  have 3: "ahead_ids w sequence i = [] \<longrightarrow> preloadAhead w sequence i = w"
    by (simp add: preloadAhead_fire)
  have 4: "fetches (preloadAhead w sequence i) =
       fetches w @ filter (\<lambda>stimId. stimId \<notin> set (failedLoads w)) (ahead_ids w sequence i)"
    unfolding 2 by (rule fire_fetches)
  have 5: "promises (preloadAhead w sequence i) =
       promises w @ map (\<lambda>stimId. (stimId, Pending))
         (filter (\<lambda>stimId. stimId \<notin> set (failedLoads w)) (ahead_ids w sequence i))"
    unfolding 2 by (rule fire_promises)
  have 6: "fst ` set (loadingPromises (preloadAhead w sequence i)) =
       fst ` set (loadingPromises w) \<union>
       {stimId \<in> set (ahead_ids w sequence i). stimId \<notin> set (failedLoads w)}"
    unfolding 2 by (rule fire_in_flight_keys)
  have 7: "audioBuffers (preloadAhead w sequence i) = audioBuffers w"
    unfolding 2 by simp
  have 8: "has (audioBuffers pi_loaded) 3" "has (audioBuffers pi_loaded) 1"
    "ahead_ids pi_loaded pi_sequence 0 = [4]"
    "fetches (preloadAhead pi_loaded pi_sequence 0) = fetches pi_loaded @ [4]"
    using pi_loaded_ahead by blast+
  show ?thesis
    by (intro conjI; fact)
qed

theorem preloadAhead_window_witness:
  "ahead_ids demo_loaded demo_sequence 1 = []
   \<and> preloadAhead demo_loaded demo_sequence 1 = demo_loaded
   \<and> toLoad demo_loaded demo_sequence 0 = [4]
   \<and> promises (preloadAhead demo_loaded demo_sequence 0) = promises demo_loaded @ [(4, Pending)]"
proof -
  note t1 = preloadAhead_window [of demo_loaded demo_sequence 1]
  note t0 = preloadAhead_window [of demo_loaded demo_sequence 0]
  have e: "ahead_ids demo_loaded demo_sequence 1 = []"
    by code_simp
  have a: "ahead_ids demo_loaded demo_sequence 0 = [4]"
    by code_simp
  have f: "failedLoads demo_loaded = []"
    by code_simp
  from t1 have "ahead_ids demo_loaded demo_sequence 1 = [] \<longrightarrow>
      preloadAhead demo_loaded demo_sequence 1 = demo_loaded"
    by (elim conjE)
  with e have n: "preloadAhead demo_loaded demo_sequence 1 = demo_loaded"
    by (rule rev_mp)
  from t0 have "toLoad demo_loaded demo_sequence 0 = ahead_ids demo_loaded demo_sequence 0"
    by (elim conjE)
  then have l: "toLoad demo_loaded demo_sequence 0 = [4]"
    unfolding a .
  from t0 have "promises (preloadAhead demo_loaded demo_sequence 0) =
       promises demo_loaded @ map (\<lambda>stimId. (stimId, Pending))
         (filter (\<lambda>stimId. stimId \<notin> set (failedLoads demo_loaded))
            (ahead_ids demo_loaded demo_sequence 0))"
    by (elim conjE)
  then have p: "promises (preloadAhead demo_loaded demo_sequence 0) =
       promises demo_loaded @ [(4, Pending)]"
    unfolding a f by simp
  show ?thesis
    by (intro conjI; fact)
qed

section \<open>The invariant of the loads in flight\<close>

lemma in_flight_pending_iff:
  "in_flight_pending w \<longleftrightarrow>
     (\<forall>stimId h. (stimId, h) \<in> set (loadingPromises w) \<longrightarrow>
        h < length (promises w) \<and> promises w ! h = (stimId, Pending))"
  by (auto simp: in_flight_pending_def list_all_iff)

lemma in_flight_pending_cong:
  "promises w' = promises w \<Longrightarrow> loadingPromises w' = loadingPromises w \<Longrightarrow>
     in_flight_pending w' = in_flight_pending w"
  by (simp add: in_flight_pending_def)

lemma in_flight_pending_lookup:
  "in_flight_pending w \<Longrightarrow> map_of (loadingPromises w) stimId = Some h \<Longrightarrow>
     h < length (promises w) \<and> promises w ! h = (stimId, Pending)"
  by (auto simp: in_flight_pending_iff dest: map_of_SomeD)

lemma set_update_subset: "set (AList.update k v al) \<subseteq> insert (k, v) (set al)"
  by (induction al) auto

lemma set_delete: "set (AList.delete k al) = {p \<in> set al. fst p \<noteq> k}"
  by (auto simp: AList.delete_eq)

lemma in_flight_pending_new [simp]: "in_flight_pending (new_preloader n k)"
  by (simp add: in_flight_pending_def new_preloader_def)

lemma in_flight_pending_new_experiment [simp]: "in_flight_pending (new_experiment chars)"
  by (simp add: in_flight_pending_def new_experiment_def new_preloader_def
      setPauseResumeCallbacks_def)

lemma in_flight_pending_loadAudio:
  assumes "in_flight_pending w"
  shows "in_flight_pending (snd (loadAudio w stimId))"
proof (cases "stimId \<in> set (failedLoads w)")
  case True
  then show ?thesis using assms by (simp add: loadAudio_failed)
next
  case False
  show ?thesis
    unfolding in_flight_pending_iff
  proof (intro allI impI)
    fix k h
    assume "(k, h) \<in> set (loadingPromises (snd (loadAudio w stimId)))"
    then have "(k, h) = (stimId, length (promises w)) \<or> (k, h) \<in> set (loadingPromises w)"
      using False set_update_subset [of stimId "length (promises w)" "loadingPromises w"]
      by (auto simp: loadAudio_fresh)
    then show "h < length (promises (snd (loadAudio w stimId))) \<and>
               promises (snd (loadAudio w stimId)) ! h = (k, Pending)"
      using assms False
      by (auto simp: loadAudio_fresh in_flight_pending_iff nth_append)
  qed
qed

lemma in_flight_pending_settle:
  assumes "in_flight_pending w"
  shows "in_flight_pending (settle w h out)"
proof (cases "h < length (promises w) \<and> snd (promises w ! h) = Pending")
  case False
  then show ?thesis using assms by (auto simp: settle_def)
next
  case True
  define sid where "sid = fst (promises w ! h)"
  have lp: "loadingPromises (settle w h out) = AList.delete sid (loadingPromises w)"
    using True by (auto simp: settle_def Let_def sid_def split: sum.splits prod.splits)
  show ?thesis
    unfolding in_flight_pending_iff
  proof (intro allI impI)
    fix k h'
    assume "(k, h') \<in> set (loadingPromises (settle w h out))"
    then have m: "(k, h') \<in> set (loadingPromises w)" and ne: "k \<noteq> sid"
      by (auto simp: lp set_delete)
    from assms m have p: "h' < length (promises w)" "promises w ! h' = (k, Pending)"
      by (auto simp: in_flight_pending_iff)
    with ne have "h' \<noteq> h"
      by (auto simp: sid_def)
    then show "h' < length (promises (settle w h out)) \<and>
               promises (settle w h out) ! h' = (k, Pending)"
      using p by (simp add: settle_other)
  qed
qed

lemma in_flight_pending_deliver:
  "in_flight_pending w \<Longrightarrow> in_flight_pending (deliver w ev)"
  by (cases ev) (simp_all add: deliver_def in_flight_pending_settle)

lemma callback_fields [simp]:
  "promises (call_onPause w stimId) = promises w"
  "loadingPromises (call_onPause w stimId) = loadingPromises w"
  "audioBuffers (call_onPause w stimId) = audioBuffers w"
  "failedLoads (call_onPause w stimId) = failedLoads w"
  "fetches (call_onPause w stimId) = fetches w"
  "promises (call_onResume w) = promises w"
  "loadingPromises (call_onResume w) = loadingPromises w"
  "audioBuffers (call_onResume w) = audioBuffers w"
  "failedLoads (call_onResume w) = failedLoads w"
  "fetches (call_onResume w) = fetches w"
  by (simp_all add: call_onPause_def call_onResume_def showPauseScreen_def hidePauseScreen_def
      split: option.splits pause_callback.splits resume_callback.splits)

lemma in_flight_pending_callbacks [simp]:
  "in_flight_pending (call_onPause w stimId) = in_flight_pending w"
  "in_flight_pending (call_onResume w) = in_flight_pending w"
  by (simp_all add: in_flight_pending_def)

lemma await_promise_settled:
  "settled w h = Some r \<Longrightarrow> await_promise w h env = Some (r, w, env)"
  by (cases env) simp_all

lemma in_flight_pending_await_promise:
  "await_promise w h env = Some (r, w', env') \<Longrightarrow> in_flight_pending w \<Longrightarrow>
     in_flight_pending w'"
proof (induction env arbitrary: w)
  case Nil
  then show ?case by (auto split: option.splits)
next
  case (Cons ev env)
  then show ?case
    by (auto split: option.splits intro: in_flight_pending_deliver)
qed

lemma in_flight_pending_wait_for:
  "wait_for sel w env = Some (a, w', env') \<Longrightarrow> in_flight_pending w \<Longrightarrow>
     in_flight_pending w'"
proof (induction env arbitrary: w)
  case Nil
  then show ?case by simp
next
  case (Cons ev env)
  then show ?case
    by (auto split: option.splits intro: in_flight_pending_deliver)
qed

text \<open>A pending load that is awaited with success has cached the buffer it returns.\<close>

lemma await_promise_cached:
  "await_promise w h env = Some (Inr buf, w', env') \<Longrightarrow> h < length (promises w) \<Longrightarrow>
     promises w ! h = (stimId, Pending) \<Longrightarrow> map_of (audioBuffers w') stimId = Some buf"
proof (induction env arbitrary: w)
  case Nil
  then show ?case by (simp add: settled_def)
next
  case (Cons ev env)
  from Cons.prems have pend: "settled w h = None"
    by (simp add: settled_def)
  with Cons.prems have run: "await_promise (deliver w ev) h env = Some (Inr buf, w', env')"
    by simp
  show ?case
  proof (cases "\<exists>out. ev = Settled h out")
    case True
    then obtain out where ev: "ev = Settled h out" by blast
    note s = settle_this [OF Cons.prems(2) Cons.prems(3), of out]
    show ?thesis
    proof (cases out)
      case (Inl e)
      with s have "settled (deliver w ev) h = Some (Inl e)"
        using Cons.prems(2) by (simp add: settled_def deliver_def ev)
      from await_promise_settled [OF this, of env] run show ?thesis by simp
    next
      case (Inr bt)
      obtain b t where bt: "bt = (b, t)" by (cases bt)
      with s Inr have f: "promises (settle w h out) ! h = (stimId, Fulfilled b)"
        and c: "map_of (audioBuffers (settle w h out)) stimId = Some b"
        by simp_all
      from f have "settled (deliver w ev) h = Some (Inr b)"
        using Cons.prems(2) by (simp add: settled_def deliver_def ev)
      from await_promise_settled [OF this, of env] run c show ?thesis
        by (simp add: deliver_def ev)
    qed
  next
    case False
    then have same: "promises (deliver w ev) ! h = (stimId, Pending)"
      using Cons.prems(3) by (cases ev) (auto simp: deliver_def settle_other)
    have len: "h < length (promises (deliver w ev))"
      using Cons.prems(2) by (cases ev) (simp_all add: deliver_def)
    from Cons.IH [OF run len same] show ?thesis .
  qed
qed

section \<open>The buffer of a trial is cached when it is played\<close>

lemma has_map_of: "has m k \<longleftrightarrow> (\<exists>v. map_of m k = Some v)"
  by (simp add: has_def)

lemma getAudioBuffer_hit:
  "map_of (audioBuffers w) stimId = Some buf \<Longrightarrow>
     getAudioBuffer w stimId showPauseUI env = Some (Inr buf, w, env)"
  by (simp add: getAudioBuffer_def)

lemma getAudioBuffer_cached:
  assumes "getAudioBuffer w stimId showPauseUI env = Some (Inr buf, w', env')"
    and "in_flight_pending w"
  shows "map_of (audioBuffers w') stimId = Some buf"
proof (cases "map_of (audioBuffers w) stimId")
  case (Some b)
  with assms(1) show ?thesis
    by (simp add: getAudioBuffer_def)
next
  case None
  define w1 where "w1 = (if showPauseUI then call_onPause w stimId else w)"
  have w1: "promises w1 = promises w" "loadingPromises w1 = loadingPromises w"
    "in_flight_pending w1"
    using assms(2) by (simp_all add: w1_def)
  show ?thesis
  proof (cases "map_of (loadingPromises w) stimId")
    case (Some h)
    from in_flight_pending_lookup [OF assms(2) Some] w1
    have p: "h < length (promises w1)" "promises w1 ! h = (stimId, Pending)"
      by simp_all
    from assms(1) None Some obtain w2 where
      a: "await_promise w1 h env = Some (Inr buf, w2, env')"
      and w': "w' = (if showPauseUI then call_onResume w2 else w2)"
      by (auto simp: getAudioBuffer_def w1_def Let_def split: option.splits sum.splits)
    from await_promise_cached [OF a p] w' show ?thesis
      by simp
  next
    case no_load: None
    show ?thesis
    proof (cases "stimId \<in> set (failedLoads w1)")
      case True
      with assms(1) None no_load show ?thesis
        by (simp add: getAudioBuffer_def w1_def [symmetric] Let_def loadAudio_failed)
    next
      case False
      define w2 where "w2 = snd (loadAudio w1 stimId)"
      have l: "loadAudio w1 stimId = (Inr (length (promises w1)), w2)"
        using False by (simp add: w2_def loadAudio_fresh)
      have p: "length (promises w1) < length (promises w2)"
        "promises w2 ! length (promises w1) = (stimId, Pending)"
        using False by (simp_all add: w2_def loadAudio_promises)
      from assms(1) None no_load l obtain w3 where
        a: "await_promise w2 (length (promises w1)) env = Some (Inr buf, w3, env')"
        and w': "w' = (if showPauseUI then call_onResume w3 else w3)"
        by (auto simp: getAudioBuffer_def w1_def [symmetric] Let_def
            split: option.splits sum.splits)
      from await_promise_cached [OF a p] w' show ?thesis
        by simp
    qed
  qed
qed

lemma in_flight_pending_getAudioBuffer:
  assumes "getAudioBuffer w stimId showPauseUI env = Some (r, w', env')"
    and "in_flight_pending w"
  shows "in_flight_pending w'"
proof -
  define w1 where "w1 = (if showPauseUI then call_onPause w stimId else w)"
  have w1: "in_flight_pending w1"
    using assms(2) by (simp add: w1_def)
  have w2: "in_flight_pending (snd (loadAudio w1 stimId))"
    using w1 by (rule in_flight_pending_loadAudio)
  show ?thesis
    using assms w1 w2
    by (auto simp: getAudioBuffer_def w1_def [symmetric] Let_def
        split: option.splits sum.splits prod.splits if_splits
        dest: in_flight_pending_await_promise)
qed

lemma ensureNextTrialReady_cached:
  assumes "ensureNextTrialReady w sequence i env = Some (Inr ready, w', env')"
    and "in_flight_pending w" and "i < length sequence"
  shows "has (audioBuffers w') (sequence ! i)"
proof (cases "has (audioBuffers w) (sequence ! i)")
  case True
  with assms(1,3) show ?thesis
    by (simp add: ensureNextTrialReady_def Let_def)
next
  case False
  with assms(1,3) obtain buf w2 where
    g: "getAudioBuffer (call_onPause w (sequence ! i)) (sequence ! i) False env =
          Some (Inr buf, w2, env')"
    and w': "w' = call_onResume w2"
    by (auto simp: ensureNextTrialReady_def Let_def split: option.splits sum.splits)
  from getAudioBuffer_cached [OF g] assms(2) w' show ?thesis
    by (simp add: has_map_of)
qed

lemma in_flight_pending_ensureNextTrialReady:
  assumes "ensureNextTrialReady w sequence i env = Some (r, w', env')"
    and "in_flight_pending w"
  shows "in_flight_pending w'"
  using assms
  by (auto simp: ensureNextTrialReady_def Let_def
      split: option.splits sum.splits if_splits
      dest!: in_flight_pending_getAudioBuffer)

lemma in_flight_pending_fire:
  "in_flight_pending w \<Longrightarrow> in_flight_pending (fire w ids)"
  by (induction ids arbitrary: w) (simp_all add: in_flight_pending_loadAudio)

lemma in_flight_pending_preloadAhead:
  "in_flight_pending w \<Longrightarrow> in_flight_pending (preloadAhead w sequence i)"
  by (simp add: preloadAhead_fire in_flight_pending_fire)

lemma in_flight_pending_sleep:
  "sleep w env = Some (u, w', env') \<Longrightarrow> in_flight_pending w \<Longrightarrow> in_flight_pending w'"
  unfolding sleep_def by (rule in_flight_pending_wait_for)

lemma runTrial_start_cached:
  assumes "runTrial_start w stimId env = Some (Inr buf, w', env')"
    and "in_flight_pending w"
  shows "map_of (audioBuffers w') stimId = Some buf"
proof -
  from assms(1) obtain u w1 env1 where
    s: "sleep w env = Some (u, w1, env1)"
    and g: "getAudioBuffer w1 stimId True env1 = Some (Inr buf, w', env')"
    by (auto simp: runTrial_start_def split: option.splits)
  from in_flight_pending_sleep [OF s assms(2)] getAudioBuffer_cached [OF g]
  show ?thesis by simp
qed

text \<open>
  Claim C3. In every state that satisfies the invariant of the loads in flight, and for
  every index \<open>i\<close> of the sequence: when \<^verbatim>\<open>ensureNextTrialReady(sequence, i)\<close>
  returns, the buffer of \<open>sequence[i]\<close> is in the cache (otherwise it has thrown the
  error of the load, or it has not returned); and when the trial then reaches
  \<^verbatim>\<open>source.start\<close>, after \<^verbatim>\<open>preloadAhead\<close> and the delay of one second
  in \<^verbatim>\<open>runTrial\<close>, the buffer that is played is the one the cache holds for
  \<open>sequence[i]\<close> at that moment. The invariant holds for a new experiment and is kept
  by \<^verbatim>\<open>preloadInitial\<close> and by every iteration of the loop (lemmas
  \<open>in_flight_pending_new_experiment\<close>, \<open>in_flight_pending_preloadInitial\<close> and
  \<open>in_flight_pending_trial_iteration\<close>).
\<close>

theorem trial_buffer_cached_at_playback:
  assumes "in_flight_pending w" and "i < length sequence"
  shows "(\<forall>ready w1 env1.
            ensureNextTrialReady w sequence i env = Some (Inr ready, w1, env1) \<longrightarrow>
              has (audioBuffers w1) (sequence ! i) \<and>
              (\<forall>buf w2 env2.
                 runTrial_start (preloadAhead w1 sequence i) (sequence ! i) env1 =
                   Some (Inr buf, w2, env2) \<longrightarrow>
                 map_of (audioBuffers w2) (sequence ! i) = Some buf))"
proof (intro allI impI conjI)
  fix ready w1 env1
  assume e: "ensureNextTrialReady w sequence i env = Some (Inr ready, w1, env1)"
  show "has (audioBuffers w1) (sequence ! i)"
    using ensureNextTrialReady_cached [OF e assms] .
  fix buf w2 env2
  assume r: "runTrial_start (preloadAhead w1 sequence i) (sequence ! i) env1 =
               Some (Inr buf, w2, env2)"
  have "in_flight_pending (preloadAhead w1 sequence i)"
    using in_flight_pending_ensureNextTrialReady [OF e assms(1)]
    by (rule in_flight_pending_preloadAhead)
  from runTrial_start_cached [OF r this]
  show "map_of (audioBuffers w2) (sequence ! i) = Some buf" .
qed

theorem trial_buffer_cached_at_playback_witness:
  "in_flight_pending demo_fourth \<and> 3 < length demo_sequence
   \<and> \<not> has (audioBuffers demo_fourth) (demo_sequence ! 3)
   \<and> ensureNextTrialReady demo_fourth demo_sequence 3 [Settled 3 (Inr (40, 9000)), TimerFired]
       = Some (Inr True, demo_ready, [TimerFired])
   \<and> has (audioBuffers demo_ready) (demo_sequence ! 3)
   \<and> runTrial_start (preloadAhead demo_ready demo_sequence 3) (demo_sequence ! 3) [TimerFired]
       = Some (Inr 40, demo_ready, [])
   \<and> map_of (audioBuffers demo_ready) (demo_sequence ! 3) = Some 40"
proof -
  have 1: "in_flight_pending demo_fourth"
    by code_simp
  have 2: "3 < length demo_sequence"
    by code_simp
  have 3: "\<not> has (audioBuffers demo_fourth) (demo_sequence ! 3)"
    by code_simp
  have 4: "ensureNextTrialReady demo_fourth demo_sequence 3
             [Settled 3 (Inr (40, 9000)), TimerFired] = Some (Inr True, demo_ready, [TimerFired])"
    by code_simp
  have 5: "runTrial_start (preloadAhead demo_ready demo_sequence 3) (demo_sequence ! 3)
             [TimerFired] = Some (Inr 40, demo_ready, [])"
    by code_simp
  note t = trial_buffer_cached_at_playback [OF 1 2, of "[Settled 3 (Inr (40, 9000)), TimerFired]",
      THEN spec, THEN spec, THEN spec, THEN mp, OF 4]
  from t have 6: "has (audioBuffers demo_ready) (demo_sequence ! 3)"
    by (rule conjunct1)
  note t2 = t [THEN conjunct2, rule_format, OF 5]
  from t2 have 7: "map_of (audioBuffers demo_ready) (demo_sequence ! 3) = Some 40" .
  show ?thesis
    by (intro conjI; fact)
qed

section \<open>The initial window\<close>

lemma deliver_fields [simp]:
  "fetches (deliver w ev) = fetches w"
  "length (promises (deliver w ev)) = length (promises w)"
  "isPaused (deliver w ev) = isPaused w"
  "overlayShown (deliver w ev) = overlayShown w"
  "notified (deliver w ev) = notified w"
  "onPauseCallback (deliver w ev) = onPauseCallback w"
  "onResumeCallback (deliver w ev) = onResumeCallback w"
  "bufferAhead (deliver w ev) = bufferAhead w"
  by (cases ev; simp add: deliver_def)+

lemma settle_keeps_failed:
  "stimId \<in> set (failedLoads w) \<Longrightarrow> stimId \<in> set (failedLoads (settle w h out))"
  by (auto simp: settle_def Let_def set_add_def split: sum.splits prod.splits)

lemma settle_rejected_failed:
  "h < length (promises w) \<Longrightarrow> snd (promises w ! h) = Pending \<Longrightarrow>
     fst (promises w ! h) \<in> set (failedLoads (settle w h (Inl e)))"
  by (simp add: settle_def Let_def set_add_def)

lemma load_of_loadAudio:
  "load_of w r stimId \<Longrightarrow> load_of (snd (loadAudio w stimId')) r stimId"
  by (cases r) (auto simp: load_of_def loadAudio_promises nth_append split: promise.splits)

lemma load_of_fire: "load_of w r stimId \<Longrightarrow> load_of (fire w ids) r stimId"
  by (induction ids arbitrary: w) (simp_all add: load_of_loadAudio)

lemma load_of_settle:
  assumes "load_of w r stimId"
  shows "load_of (settle w h out) r stimId"
proof (cases r)
  case (Inl e)
  with assms show ?thesis
    by (simp add: load_of_def settle_keeps_failed)
next
  case (Inr h')
  with assms have l: "h' < length (promises w)" and s: "fst (promises w ! h') = stimId"
    by (simp_all add: load_of_def)
  show ?thesis
  proof (cases "h' = h \<and> snd (promises w ! h) = Pending")
    case True
    with l s have p: "h < length (promises w)" "promises w ! h = (stimId, Pending)"
      by (simp_all add: prod_eq_iff)
    from settle_this [OF p, of out] p(1) True Inr show ?thesis
      using settle_rejected_failed [OF p(1), of e for e] s
      by (cases out) (auto simp: load_of_def has_map_of split: prod.splits)
  next
    case False
    have "promises (settle w h out) ! h' = promises w ! h'"
    proof (cases "h' = h")
      case True
      with False show ?thesis by (simp add: settle_def)
    next
      case ne: False
      then show ?thesis by (simp add: settle_other)
    qed
    with assms Inr l show ?thesis
      by (auto simp: load_of_def settle_keeps_cached settle_keeps_failed split: promise.splits)
  qed
qed

lemma load_of_deliver: "load_of w r stimId \<Longrightarrow> load_of (deliver w ev) r stimId"
  by (cases ev) (simp_all add: deliver_def load_of_settle)

lemma start_all_Cons:
  "start_all w (stimId # ids) =
     (fst (loadAudio w stimId) # fst (start_all (snd (loadAudio w stimId)) ids),
      snd (start_all (snd (loadAudio w stimId)) ids))"
  by (simp split: prod.splits)

lemma snd_start_all: "snd (start_all w ids) = fire w ids"
  by (induction ids arbitrary: w) (simp_all add: start_all_Cons del: start_all.simps(2))

lemma length_start_all: "length (fst (start_all w ids)) = length ids"
  by (induction ids arbitrary: w) (simp_all add: start_all_Cons del: start_all.simps(2))

lemma load_of_loadAudio_result:
  "load_of (snd (loadAudio w stimId)) (fst (loadAudio w stimId)) stimId"
  by (simp add: load_of_def loadAudio_def Let_def)

lemma start_all_loads:
  "list_all2 (load_of (fire w ids)) (fst (start_all w ids)) ids"
proof (induction ids arbitrary: w)
  case Nil
  show ?case by simp
next
  case (Cons stimId ids)
  have "load_of (fire (snd (loadAudio w stimId)) ids) (fst (loadAudio w stimId)) stimId"
    using load_of_loadAudio_result by (rule load_of_fire)
  with Cons [of "snd (loadAudio w stimId)"] show ?case
    by (simp add: start_all_Cons del: start_all.simps(2))
qed

lemma start_all_handles:
  "\<forall>stimId\<in>set ids. stimId \<notin> set (failedLoads w) \<Longrightarrow>
     fst (start_all w ids) = map Inr [length (promises w) ..< length (promises w) + length ids]"
proof (induction ids arbitrary: w)
  case Nil
  show ?case by simp
next
  case (Cons stimId ids)
  from Cons.prems have f: "stimId \<notin> set (failedLoads w)"
    by simp
  have p: "length (promises (snd (loadAudio w stimId))) = Suc (length (promises w))"
    using f by (simp add: loadAudio_promises)
  from Cons.prems have "\<forall>x\<in>set ids. x \<notin> set (failedLoads (snd (loadAudio w stimId)))"
    by simp
  from Cons.IH [OF this]
  have ih: "fst (start_all (snd (loadAudio w stimId)) ids) =
          map Inr [Suc (length (promises w)) ..< Suc (length (promises w)) + length ids]"
    unfolding p .
  have hd: "fst (loadAudio w stimId) = Inr (length (promises w))"
    using f by (simp add: loadAudio_fresh)
  have u: "[length (promises w) ..< length (promises w) + length (stimId # ids)] =
           length (promises w) # [Suc (length (promises w)) ..<
                                    Suc (length (promises w)) + length ids]"
  proof -
    have e: "length (promises w) + length (stimId # ids) = Suc (length (promises w)) + length ids"
      by simp
    have "[length (promises w) ..< Suc (length (promises w)) + length ids] =
          length (promises w) # [Suc (length (promises w)) ..<
                                   Suc (length (promises w)) + length ids]"
      by (rule upt_conv_Cons) simp
    then show ?thesis
      unfolding e .
  qed
  show ?case
    unfolding start_all_Cons u fst_conv hd ih by simp
qed

lemma await_all_result:
  "await_all w rs env = Some (ok, w', env') \<Longrightarrow> all_settled w' rs = Some ok"
  by (induction env arbitrary: w) (auto split: option.splits)

lemma await_all_fields:
  "await_all w rs env = Some (ok, w', env') \<Longrightarrow>
     fetches w' = fetches w \<and> length (promises w') = length (promises w)"
  by (induction env arbitrary: w) (auto split: option.splits)

lemma await_all_loads:
  "await_all w rs env = Some (ok, w', env') \<Longrightarrow> list_all2 (load_of w) rs ids \<Longrightarrow>
     list_all2 (load_of w') rs ids"
proof (induction env arbitrary: w)
  case Nil
  then show ?case by (auto split: option.splits)
next
  case (Cons ev env)
  have "list_all2 (load_of (deliver w ev)) rs ids"
    using Cons.prems(2) by (rule list_all2_mono) (rule load_of_deliver)
  with Cons show ?case
    by (auto split: option.splits)
qed

lemma in_flight_pending_await_all:
  "await_all w rs env = Some (ok, w', env') \<Longrightarrow> in_flight_pending w \<Longrightarrow>
     in_flight_pending w'"
  by (induction env arbitrary: w) (auto split: option.splits intro: in_flight_pending_deliver)

lemma all_settled_True:
  assumes "all_settled w rs = Some True"
  shows "\<forall>r\<in>set rs. \<exists>h buf. r = Inr h \<and> settled w h = Some (Inr buf)"
proof
  fix r
  assume "r \<in> set rs"
  with assms have "case outcome w r of Some (Inr buf) \<Rightarrow> True | _ \<Rightarrow> False"
    by (auto simp: all_settled_def list_all_iff split: if_splits)
  then show "\<exists>h buf. r = Inr h \<and> settled w h = Some (Inr buf)"
    by (cases r) (auto simp: outcome_def split: option.splits sum.splits)
qed

lemma all_settled_False:
  assumes "all_settled w rs = Some False"
  shows "\<exists>r\<in>set rs. \<exists>e. outcome w r = Some (Inl e)"
proof -
  from assms have "list_ex (\<lambda>r. case outcome w r of Some (Inl e) \<Rightarrow> True | _ \<Rightarrow> False) rs"
    by (auto simp: all_settled_def split: if_splits)
  then obtain r where "r \<in> set rs"
    and "case outcome w r of Some (Inl e) \<Rightarrow> True | _ \<Rightarrow> False"
    by (auto simp: list_ex_iff)
  then show ?thesis
    by (auto split: option.splits sum.splits)
qed

lemma settled_Fulfilled:
  "settled w h = Some (Inr buf) \<longleftrightarrow> h < length (promises w) \<and> snd (promises w ! h) = Fulfilled buf"
  by (auto simp: settled_def split: promise.splits)

lemma settled_Rejected:
  "settled w h = Some (Inl e) \<longleftrightarrow> h < length (promises w) \<and> snd (promises w ! h) = Rejected e"
  by (auto simp: settled_def split: promise.splits)

lemma fulfilled_loads_cached:
  assumes "all_settled w rs = Some True" and "list_all2 (load_of w) rs ids"
    and "stimId \<in> set ids"
  shows "has (audioBuffers w) stimId"
proof -
  from assms(3) obtain j where j: "j < length ids" "ids ! j = stimId"
    by (auto simp: in_set_conv_nth)
  with assms(2) have l: "load_of w (rs ! j) stimId" and jr: "j < length rs"
    by (auto simp: list_all2_conv_all_nth)
  from all_settled_True [OF assms(1)] jr obtain h buf where
    "rs ! j = Inr h" "settled w h = Some (Inr buf)"
    by (metis nth_mem)
  with l show ?thesis
    by (simp add: load_of_def settled_Fulfilled)
qed

lemma rejected_load_failed:
  assumes "all_settled w rs = Some False" and "list_all2 (load_of w) rs ids"
  shows "\<exists>stimId\<in>set ids. stimId \<in> set (failedLoads w)"
proof -
  from all_settled_False [OF assms(1)] obtain r e where
    r: "r \<in> set rs" "outcome w r = Some (Inl e)"
    by blast
  then obtain j where j: "j < length rs" "rs ! j = r"
    by (auto simp: in_set_conv_nth)
  with assms(2) have l: "load_of w r (ids ! j)" and ji: "j < length ids"
    by (auto simp: list_all2_conv_all_nth)
  from l r(2) have "ids ! j \<in> set (failedLoads w)"
    by (cases r) (auto simp: load_of_def outcome_def settled_Rejected)
  with ji show ?thesis
    by (metis nth_mem)
qed

lemma start_all_none_failed:
  "\<forall>r\<in>set (fst (start_all w ids)). \<exists>h. r = Inr h \<Longrightarrow>
     \<forall>stimId\<in>set ids. stimId \<notin> set (failedLoads w)"
proof (induction ids arbitrary: w)
  case Nil
  show ?case by simp
next
  case (Cons stimId ids)
  from Cons.prems have a: "\<exists>h. fst (loadAudio w stimId) = Inr h"
    and b: "\<forall>r\<in>set (fst (start_all (snd (loadAudio w stimId)) ids)). \<exists>h. r = Inr h"
    by (simp_all add: start_all_Cons del: start_all.simps(2))
  from a have "stimId \<notin> set (failedLoads w)"
    by (auto simp: loadAudio_def)
  moreover from Cons.IH [OF b] have "\<forall>x\<in>set ids. x \<notin> set (failedLoads w)"
    by simp
  ultimately show ?case by simp
qed

lemma preloadInitial_alt:
  "preloadInitial w sequence env =
     (case await_all (fire w (take (bufferAhead w) sequence))
             (fst (start_all w (take (bufferAhead w) sequence))) env of
        None \<Rightarrow> None
      | Some (ok, w2, env2) \<Rightarrow>
          Some (if ok then Inr True else Inl InitialBatchFailed, w2, env2))"
proof -
  obtain rs w1 where s: "start_all w (take (bufferAhead w) sequence) = (rs, w1)"
    by (cases "start_all w (take (bufferAhead w) sequence)")
  then have w1: "fire w (take (bufferAhead w) sequence) = w1"
    using snd_start_all [of w "take (bufferAhead w) sequence"] by simp
  show ?thesis
  proof (cases "await_all w1 rs env")
    case None
    then show ?thesis
      by (simp add: preloadInitial_def Let_def js_slice_take s w1)
  next
    case (Some res)
    obtain ok w2 env2 where res: "res = (ok, w2, env2)"
      by (cases res)
    show ?thesis
      by (cases ok) (simp_all add: preloadInitial_def Let_def js_slice_take s w1 Some res)
  qed
qed

lemma preloadInitial_unfold:
  assumes "preloadInitial w sequence env = Some (r, w', env')"
  obtains ok where
    "await_all (fire w (take (bufferAhead w) sequence))
       (fst (start_all w (take (bufferAhead w) sequence))) env = Some (ok, w', env')"
    "r = (if ok then Inr True else Inl InitialBatchFailed)"
proof (cases "await_all (fire w (take (bufferAhead w) sequence))
       (fst (start_all w (take (bufferAhead w) sequence))) env")
  case None
  with assms show ?thesis
    by (simp add: preloadInitial_alt)
next
  case (Some res)
  obtain ok w2 env2 where res: "res = (ok, w2, env2)"
    by (cases res)
  from assms Some res have "w2 = w'" "env2 = env'"
    "r = (if ok then Inr True else Inl InitialBatchFailed)"
    by (simp_all add: preloadInitial_alt)
  with Some res that show ?thesis
    by simp
qed

section \<open>Stimuli that failed to load\<close>

lemma await_promise_fetches:
  "await_promise w h env = Some (r, w', env') \<Longrightarrow> fetches w' = fetches w"
  by (induction env arbitrary: w) (auto split: option.splits)

lemma wait_for_fetches:
  "wait_for sel w env = Some (a, w', env') \<Longrightarrow> fetches w' = fetches w"
  by (induction env arbitrary: w) (auto split: option.splits)

lemma getAudioBuffer_failed_no_fetch:
  assumes "stimId \<in> set (failedLoads w)"
    and "getAudioBuffer w stimId showPauseUI env = Some (r, w', env')"
  shows "fetches w' = fetches w"
proof -
  define w1 where "w1 = (if showPauseUI then call_onPause w stimId else w)"
  have f: "stimId \<in> set (failedLoads w1)" "fetches w1 = fetches w"
    using assms(1) by (simp_all add: w1_def)
  show ?thesis
  proof (cases "map_of (audioBuffers w) stimId")
    case (Some buf)
    with assms(2) show ?thesis
      by (simp add: getAudioBuffer_def)
  next
    case None
    show ?thesis
    proof (cases "map_of (loadingPromises w) stimId")
      case no_load: None
      with assms(2) None f show ?thesis
        by (simp add: getAudioBuffer_def w1_def [symmetric] Let_def loadAudio_failed)
    next
      case (Some h)
      with assms(2) None obtain r2 w2 where
        a: "await_promise w1 h env = Some (r2, w2, env')"
        and w': "w' = w2 \<or> w' = call_onResume w2"
        by (auto simp: getAudioBuffer_def w1_def [symmetric] Let_def
            split: option.splits sum.splits if_splits)
      from await_promise_fetches [OF a] f w' show ?thesis
        by auto
    qed
  qed
qed

lemma getAudioBuffer_failed_uncached:
  assumes "stimId \<in> set (failedLoads w)"
    and "\<not> has (audioBuffers w) stimId" and "\<not> has (loadingPromises w) stimId"
  shows "getAudioBuffer w stimId showPauseUI env =
           Some (Inl (PreviouslyFailed stimId),
                 if showPauseUI then call_onPause w stimId else w, env)"
  using assms
  by (simp add: getAudioBuffer_def has_def Let_def loadAudio_failed)

text \<open>
  Outside the program, a stimulus that is loaded with success and then loaded again by a
  direct call of \<^verbatim>\<open>loadAudio\<close> without success is both cached and in the failed
  set, and \<^verbatim>\<open>getAudioBuffer\<close> returns the cached buffer. No call site of the
  program loads a cached stimulus: see the invariant of the preloader below.
\<close>

lemma direct_reload_cached_and_failed:
  "7 \<in> set (failedLoads cached_and_failed)
   \<and> getAudioBuffer cached_and_failed 7 True [] = Some (Inr 70, cached_and_failed, [])"
  by code_simp

section \<open>The waiting overlay\<close>

text \<open>
  Claim C5, at the input where the code departs from it: the fourth trial of the session
  waits for stimulus 4, whose load then fails. \<^verbatim>\<open>ensureNextTrialReady\<close> throws the
  error of the load after the pause callback and without the resume callback: the
  overlay stays shown and the experiment stays paused. The same holds for
  \<^verbatim>\<open>getAudioBuffer\<close> with the pause screen enabled.
\<close>

theorem failed_wait_leaves_overlay:
  "ensureNextTrialReady demo_fourth demo_sequence 3 [Settled 3 (Inl FetchFailed)]
     = Some (Inl FetchFailed, demo_stuck, [])
   \<and> getAudioBuffer demo_fourth 4 True [Settled 3 (Inl FetchFailed)]
     = Some (Inl FetchFailed, demo_stuck, [])
   \<and> notified demo_fourth = []
   \<and> notified demo_stuck = [EnterWait 4]
   \<and> overlayShown demo_stuck \<and> isPaused demo_stuck"
  by code_simp

section \<open>The pause flag of a trial\<close>

text \<open>
  Claim C2, at the input where the code departs from it: the fourth trial of the session
  finds its buffer missing, shows the pause screen and waits until the load settles; the
  trial completes, and the record it stores has \<open>wasPaused = False\<close>, since
  \<^verbatim>\<open>isPaused\<close> is read after \<^verbatim>\<open>hidePauseScreen\<close> has reset it.
\<close>

theorem waiting_trial_recorded_unpaused:
  "\<not> has (audioBuffers demo_fourth) (demo_sequence ! 3)
   \<and> notified demo_fourth = []
   \<and> trial_iteration demo_fourth demo_sequence 3 demo_fourth_trial = Some (Inr (), demo_done, [])
   \<and> notified demo_done = [EnterWait 4, WaitEnded]
   \<and> results demo_done = results demo_fourth @
        [\<lparr> trialNumber = 4, stimulusId = 4, character = Some ''d'', reactionTime = 700,
           timestamp = 4000, wasPaused = False \<rparr>]"
  by code_simp

section \<open>The runner keeps the invariant and never records a pause\<close>

lemma in_flight_pending_preloadInitial:
  assumes "preloadInitial w sequence env = Some (r, w', env')" and "in_flight_pending w"
  shows "in_flight_pending w'"
proof -
  from assms(1) obtain ok where
    a: "await_all (fire w (take (bufferAhead w) sequence))
          (fst (start_all w (take (bufferAhead w) sequence))) env = Some (ok, w', env')"
    by (rule preloadInitial_unfold)
  from in_flight_pending_await_all [OF a] assms(2) show ?thesis
    by (simp add: in_flight_pending_fire)
qed

lemma trial_iteration_cases:
  assumes "trial_iteration w sequence i env = Some (Inr u, w', env')"
  obtains ready w1 env1 rt ts w3 env3 v w5 env5 v' where
    "ensureNextTrialReady w sequence i env = Some (Inr ready, w1, env1)"
    "runTrial (preloadAhead w1 sequence i) (sequence ! i) env1 = Some (Inr (rt, ts), w3, env3)"
    "submitTrialResult
       (w3\<lparr>results := results w3 @
          [\<lparr> trialNumber = i + 1, stimulusId = sequence ! i,
             character = character_of w3 (sequence ! i), reactionTime = rt,
             timestamp = ts, wasPaused = isPaused w3 \<rparr>]\<rparr>)
       \<lparr> trialNumber = i + 1, stimulusId = sequence ! i,
         character = character_of w3 (sequence ! i), reactionTime = rt,
         timestamp = ts, wasPaused = isPaused w3 \<rparr> env3 = Some (v, w5, env5)"
    "sleep (if i mod 10 = 0 \<and> i > 0 then clearOldBuffers w5 sequence i 2 else w5) env5
       = Some (v', w', env')"
proof (cases "ensureNextTrialReady w sequence i env")
  case None
  with assms show ?thesis
    by (simp add: trial_iteration_def)
next
  case (Some a)
  obtain r1 w1 env1 where a: "a = (r1, w1, env1)"
    by (cases a)
  show ?thesis
  proof (cases r1)
    case (Inl e)
    with assms Some a show ?thesis
      by (simp add: trial_iteration_def)
  next
    case (Inr ready)
    note e = Some [unfolded a Inr]
    show ?thesis
    proof (cases "runTrial (preloadAhead w1 sequence i) (sequence ! i) env1")
      case None
      with assms e show ?thesis
        by (simp add: trial_iteration_def Let_def)
    next
      case (Some b)
      obtain r3 w3 env3 where b: "b = (r3, w3, env3)"
        by (cases b)
      show ?thesis
      proof (cases r3)
        case (Inl e3)
        with assms e Some b show ?thesis
          by (simp add: trial_iteration_def Let_def)
      next
        case (Inr rtts)
        obtain rt ts where rtts: "rtts = (rt, ts)"
          by (cases rtts)
        note t = Some [unfolded b Inr rtts]
        define rec where "rec =
          \<lparr> trialNumber = i + 1, stimulusId = sequence ! i,
            character = character_of w3 (sequence ! i), reactionTime = rt,
            timestamp = ts, wasPaused = isPaused w3 \<rparr>"
        show ?thesis
        proof (cases "submitTrialResult (w3\<lparr>results := results w3 @ [rec]\<rparr>) rec env3")
          case None
          with assms e t show ?thesis
            by (simp add: trial_iteration_def Let_def rec_def)
        next
          case (Some c)
          obtain v w5 env5 where c: "c = (v, w5, env5)"
            by (cases c)
          note s = Some [unfolded c]
          show ?thesis
          proof (cases "sleep (if i mod 10 = 0 \<and> i > 0 then clearOldBuffers w5 sequence i 2
                               else w5) env5")
            case None
            with assms e t s show ?thesis
              by (simp add: trial_iteration_def Let_def rec_def)
          next
            case (Some d)
            obtain v' w7 env7 where d: "d = (v', w7, env7)"
              by (cases d)
            from assms e t s Some d have "w7 = w'" "env7 = env'"
              by (simp_all add: trial_iteration_def Let_def rec_def)
            with Some d have "sleep (if i mod 10 = 0 \<and> i > 0 then clearOldBuffers w5 sequence i 2
                               else w5) env5 = Some (v', w', env')"
              by simp
            with e t s that show ?thesis
              unfolding rec_def by blast
          qed
        qed
      qed
    qed
  qed
qed


lemma runTrial_cases:
  assumes "runTrial w stimId env = Some (Inr r, w', env')"
  obtains v w1 env1 buf w2 env2 where
    "sleep w env = Some (v, w1, env1)"
    "getAudioBuffer w1 stimId True env1 = Some (Inr buf, w2, env2)"
    "waitForResponse w2 env2 = Some (r, w', env')"
proof (cases "runTrial_start w stimId env")
  case None
  with assms show ?thesis
    by (simp add: runTrial_def)
next
  case (Some a)
  obtain r2 w2 env2 where a: "a = (r2, w2, env2)"
    by (cases a)
  show ?thesis
  proof (cases r2)
    case (Inl e)
    with assms Some a show ?thesis
      by (simp add: runTrial_def)
  next
    case (Inr buf)
    note st = Some [unfolded a Inr]
    from assms st have w: "waitForResponse w2 env2 = Some (r, w', env')"
      by (auto simp: runTrial_def split: option.splits)
    from st obtain v w1 env1 where
      "sleep w env = Some (v, w1, env1)"
      "getAudioBuffer w1 stimId True env1 = Some (Inr buf, w2, env2)"
      by (auto simp: runTrial_start_def split: option.splits)
    with w that show ?thesis
      by blast
  qed
qed

lemma in_flight_pending_clearOldBuffers [simp]:
  "in_flight_pending (clearOldBuffers w sequence i k) = in_flight_pending w"
  by (simp add: in_flight_pending_def clearOldBuffers_def)

lemma in_flight_pending_submitTrialResult:
  assumes "submitTrialResult w t env = Some (v, w', env')" and "in_flight_pending w"
  shows "in_flight_pending w'"
proof -
  from assms(1) obtain ok w1 where
    a: "wait_for (\<lambda>ev. case ev of Posted ok \<Rightarrow> Some ok | _ \<Rightarrow> None) w env = Some (ok, w1, env')"
    and w': "w' = (if ok then w1 else saveToLocalStorage w1 t)"
    by (auto simp: submitTrialResult_def split: option.splits)
  from in_flight_pending_wait_for [OF a assms(2)] w' show ?thesis
    by (simp add: in_flight_pending_def saveToLocalStorage_def)
qed

lemma in_flight_pending_trial_iteration:
  assumes "trial_iteration w sequence i env = Some (Inr u, w', env')" and "in_flight_pending w"
  shows "in_flight_pending w'"
proof -
  from assms(1) obtain ready w1 env1 rt ts w3 env3 v w5 env5 v' where
    e: "ensureNextTrialReady w sequence i env = Some (Inr ready, w1, env1)"
    and t: "runTrial (preloadAhead w1 sequence i) (sequence ! i) env1 =
              Some (Inr (rt, ts), w3, env3)"
    and s: "submitTrialResult
       (w3\<lparr>results := results w3 @
          [\<lparr> trialNumber = i + 1, stimulusId = sequence ! i,
             character = character_of w3 (sequence ! i), reactionTime = rt,
             timestamp = ts, wasPaused = isPaused w3 \<rparr>]\<rparr>)
       \<lparr> trialNumber = i + 1, stimulusId = sequence ! i,
         character = character_of w3 (sequence ! i), reactionTime = rt,
         timestamp = ts, wasPaused = isPaused w3 \<rparr> env3 = Some (v, w5, env5)"
    and b: "sleep (if i mod 10 = 0 \<and> i > 0 then clearOldBuffers w5 sequence i 2 else w5) env5
              = Some (v', w', env')"
    by (rule trial_iteration_cases)
  have 1: "in_flight_pending (preloadAhead w1 sequence i)"
    using in_flight_pending_ensureNextTrialReady [OF e assms(2)]
    by (rule in_flight_pending_preloadAhead)
  from t obtain x wa enva buf wb envb where
    ta: "sleep (preloadAhead w1 sequence i) env1 = Some (x, wa, enva)"
    and tb: "getAudioBuffer wa (sequence ! i) True enva = Some (Inr buf, wb, envb)"
    and tc: "waitForResponse wb envb = Some ((rt, ts), w3, env3)"
    by (rule runTrial_cases)
  have "in_flight_pending wb"
    using tb in_flight_pending_sleep [OF ta 1] by (rule in_flight_pending_getAudioBuffer)
  with tc have 3: "in_flight_pending w3"
    unfolding waitForResponse_def by (rule in_flight_pending_wait_for)
  then have "in_flight_pending (w3\<lparr>results := results w3 @
          [\<lparr> trialNumber = i + 1, stimulusId = sequence ! i,
             character = character_of w3 (sequence ! i), reactionTime = rt,
             timestamp = ts, wasPaused = isPaused w3 \<rparr>]\<rparr>)"
    by (simp add: in_flight_pending_def)
  with s have "in_flight_pending w5"
    by (rule in_flight_pending_submitTrialResult)
  then have "in_flight_pending
               (if i mod 10 = 0 \<and> i > 0 then clearOldBuffers w5 sequence i 2 else w5)"
    by simp
  with b show ?thesis
    by (rule in_flight_pending_sleep)
qed

text \<open>The pause flag and the list of results through the waits.\<close>

lemma results_fields [simp]:
  "results (settle w h out) = results w"
  "results (snd (loadAudio w stimId)) = results w"
  "results (call_onPause w stimId) = results w"
  "results (call_onResume w) = results w"
  by (simp_all add: settle_def loadAudio_def Let_def call_onPause_def call_onResume_def
      showPauseScreen_def hidePauseScreen_def
      split: sum.splits prod.splits option.splits pause_callback.splits resume_callback.splits)

lemma results_deliver [simp]: "results (deliver w ev) = results w"
  by (cases ev) (simp_all add: deliver_def)

lemma results_fire [simp]: "results (fire w ids) = results w"
  by (induction ids arbitrary: w) simp_all

lemma await_promise_ui:
  "await_promise w h env = Some (r, w', env') \<Longrightarrow>
     isPaused w' = isPaused w \<and> onResumeCallback w' = onResumeCallback w
     \<and> results w' = results w"
  by (induction env arbitrary: w) (auto split: option.splits)

lemma wait_for_ui:
  "wait_for sel w env = Some (a, w', env') \<Longrightarrow>
     isPaused w' = isPaused w \<and> onResumeCallback w' = onResumeCallback w
     \<and> results w' = results w"
  by (induction env arbitrary: w) (auto split: option.splits)

lemma call_onResume_registered:
  "onResumeCallback w = Some HidePauseScreen \<Longrightarrow>
     \<not> isPaused (call_onResume w) \<and> onResumeCallback (call_onResume w) = Some HidePauseScreen"
  by (simp add: call_onResume_def hidePauseScreen_def)

lemma call_onPause_resume [simp]:
  "onResumeCallback (call_onPause w stimId) = onResumeCallback w"
  by (simp add: call_onPause_def showPauseScreen_def
      split: option.splits pause_callback.splits)

lemma getAudioBuffer_resume_callback:
  assumes "getAudioBuffer w stimId showPauseUI env = Some (r, w', env')"
  shows "onResumeCallback w' = onResumeCallback w \<and> results w' = results w
         \<and> (\<not> showPauseUI \<longrightarrow> isPaused w' = isPaused w)"
proof -
  define w1 where "w1 = (if showPauseUI then call_onPause w stimId else w)"
  have c: "onResumeCallback w1 = onResumeCallback w" "\<not> showPauseUI \<Longrightarrow> w1 = w"
    "results w1 = results w"
    by (simp_all add: w1_def)
  show ?thesis
  proof (cases "map_of (audioBuffers w) stimId")
    case (Some buf)
    with assms show ?thesis
      by (simp add: getAudioBuffer_def)
  next
    case None
    show ?thesis
    proof (cases "map_of (loadingPromises w) stimId")
      case (Some h)
      with assms None obtain r2 w2 where
        a: "await_promise w1 h env = Some (r2, w2, env')"
        and w': "w' = w2 \<or> (showPauseUI \<and> w' = call_onResume w2)"
        by (auto simp: getAudioBuffer_def w1_def [symmetric] Let_def
            split: option.splits sum.splits if_splits)
      from await_promise_ui [OF a] c w' show ?thesis
        by (auto simp: call_onResume_def hidePauseScreen_def
            split: option.splits resume_callback.splits)
    next
      case no_load: None
      show ?thesis
      proof (cases "stimId \<in> set (failedLoads w1)")
        case True
        with assms None no_load c show ?thesis
          by (auto simp: getAudioBuffer_def w1_def [symmetric] Let_def loadAudio_failed)
      next
        case False
        define w2 where "w2 = snd (loadAudio w1 stimId)"
        have l: "loadAudio w1 stimId = (Inr (length (promises w1)), w2)"
          using False by (simp add: w2_def loadAudio_fresh)
        have c2: "onResumeCallback w2 = onResumeCallback w1" "isPaused w2 = isPaused w1"
          "results w2 = results w1"
          by (simp_all add: w2_def)
        from assms None no_load l obtain r3 w3 where
          a: "await_promise w2 (length (promises w1)) env = Some (r3, w3, env')"
          and w': "w' = w3 \<or> (showPauseUI \<and> w' = call_onResume w3)"
          by (auto simp: getAudioBuffer_def w1_def [symmetric] Let_def
              split: option.splits sum.splits if_splits)
        from await_promise_ui [OF a] c c2 w' show ?thesis
          by (auto simp: call_onResume_def hidePauseScreen_def
              split: option.splits resume_callback.splits)
      qed
    qed
  qed
qed

lemma getAudioBuffer_unpaused:
  assumes "getAudioBuffer w stimId True env = Some (Inr buf, w', env')"
    and "onResumeCallback w = Some HidePauseScreen" and "\<not> isPaused w"
  shows "\<not> isPaused w'"
proof (cases "map_of (audioBuffers w) stimId")
  case (Some b)
  with assms show ?thesis
    by (simp add: getAudioBuffer_def)
next
  case None
  define w1 where "w1 = call_onPause w stimId"
  have c: "onResumeCallback w1 = Some HidePauseScreen"
    using assms(2) by (simp add: w1_def)
  show ?thesis
  proof (cases "map_of (loadingPromises w) stimId")
    case (Some h)
    with assms(1) None obtain w2 where
      a: "await_promise w1 h env = Some (Inr buf, w2, env')"
      and w': "w' = call_onResume w2"
      by (auto simp: getAudioBuffer_def w1_def [symmetric] Let_def
          split: option.splits sum.splits)
    from await_promise_ui [OF a] c have "onResumeCallback w2 = Some HidePauseScreen"
      by simp
    from call_onResume_registered [OF this] w' show ?thesis
      by simp
  next
    case no_load: None
    show ?thesis
    proof (cases "stimId \<in> set (failedLoads w1)")
      case True
      with assms(1) None no_load show ?thesis
        by (simp add: getAudioBuffer_def w1_def [symmetric] Let_def loadAudio_failed)
    next
      case False
      define w2 where "w2 = snd (loadAudio w1 stimId)"
      have l: "loadAudio w1 stimId = (Inr (length (promises w1)), w2)"
        using False by (simp add: w2_def loadAudio_fresh)
      have c2: "onResumeCallback w2 = Some HidePauseScreen"
        using c by (simp add: w2_def)
      from assms(1) None no_load l obtain w3 where
        a: "await_promise w2 (length (promises w1)) env = Some (Inr buf, w3, env')"
        and w': "w' = call_onResume w3"
        by (auto simp: getAudioBuffer_def w1_def [symmetric] Let_def
            split: option.splits sum.splits)
      from await_promise_ui [OF a] c2 have "onResumeCallback w3 = Some HidePauseScreen"
        by simp
      from call_onResume_registered [OF this] w' show ?thesis
        by simp
    qed
  qed
qed

lemma ensureNextTrialReady_unpaused:
  assumes "ensureNextTrialReady w sequence i env = Some (Inr ready, w', env')"
    and "onResumeCallback w = Some HidePauseScreen" and "\<not> isPaused w"
  shows "\<not> isPaused w' \<and> onResumeCallback w' = Some HidePauseScreen \<and> results w' = results w"
proof (cases "i < length sequence \<and> \<not> has (audioBuffers w) (sequence ! i)")
  case False
  with assms show ?thesis
    by (auto simp: ensureNextTrialReady_def Let_def split: if_splits)
next
  case True
  with assms(1) obtain buf w2 where
    g: "getAudioBuffer (call_onPause w (sequence ! i)) (sequence ! i) False env =
          Some (Inr buf, w2, env')"
    and w': "w' = call_onResume w2"
    by (auto simp: ensureNextTrialReady_def Let_def split: option.splits sum.splits)
  from getAudioBuffer_resume_callback [OF g] assms(2)
  have "onResumeCallback w2 = Some HidePauseScreen" "results w2 = results w"
    by simp_all
  from call_onResume_registered [OF this(1)] this(2) w' show ?thesis
    by simp
qed

text \<open>
  With the callbacks of the experiment registered, the record of a completed trial never
  has the pause flag set, whether the trial waited or not.
\<close>

lemma completed_trial_recorded_unpaused:
  assumes "trial_iteration w sequence i env = Some (Inr u, w', env')"
    and "onResumeCallback w = Some HidePauseScreen" and "\<not> isPaused w"
  shows "\<exists>t. results w' = results w @ [t] \<and> trialNumber t = i + 1 \<and> \<not> wasPaused t"
    and "\<not> isPaused w'" and "onResumeCallback w' = Some HidePauseScreen"
proof -
  from assms(1) obtain ready w1 env1 rt ts w3 env3 v w5 env5 v' where
    e: "ensureNextTrialReady w sequence i env = Some (Inr ready, w1, env1)"
    and t: "runTrial (preloadAhead w1 sequence i) (sequence ! i) env1 =
              Some (Inr (rt, ts), w3, env3)"
    and s: "submitTrialResult
       (w3\<lparr>results := results w3 @
          [\<lparr> trialNumber = i + 1, stimulusId = sequence ! i,
             character = character_of w3 (sequence ! i), reactionTime = rt,
             timestamp = ts, wasPaused = isPaused w3 \<rparr>]\<rparr>)
       \<lparr> trialNumber = i + 1, stimulusId = sequence ! i,
         character = character_of w3 (sequence ! i), reactionTime = rt,
         timestamp = ts, wasPaused = isPaused w3 \<rparr> env3 = Some (v, w5, env5)"
    and b: "sleep (if i mod 10 = 0 \<and> i > 0 then clearOldBuffers w5 sequence i 2 else w5) env5
              = Some (v', w', env')"
    by (rule trial_iteration_cases)
  note e1 = ensureNextTrialReady_unpaused [OF e assms(2,3)]
  from t obtain x wa enva buf wb envb where
    ta: "sleep (preloadAhead w1 sequence i) env1 = Some (x, wa, enva)"
    and tb: "getAudioBuffer wa (sequence ! i) True enva = Some (Inr buf, wb, envb)"
    and tc: "waitForResponse wb envb = Some ((rt, ts), w3, env3)"
    by (rule runTrial_cases)
  have a: "\<not> isPaused wa" "onResumeCallback wa = Some HidePauseScreen"
    "results wa = results w"
    using wait_for_ui [OF ta [unfolded sleep_def]] e1
    by (simp_all add: preloadAhead_fire)
  have bb: "\<not> isPaused wb" "onResumeCallback wb = Some HidePauseScreen"
    "results wb = results w"
    using getAudioBuffer_unpaused [OF tb a(2) a(1)] getAudioBuffer_resume_callback [OF tb] a(2,3)
    by simp_all
  have 3: "\<not> isPaused w3" "onResumeCallback w3 = Some HidePauseScreen"
    "results w3 = results w"
    using wait_for_ui [OF tc [unfolded waitForResponse_def]] bb by simp_all
  from s obtain ok wc where
    sa: "wait_for (\<lambda>ev. case ev of Posted ok \<Rightarrow> Some ok | _ \<Rightarrow> None)
           (w3\<lparr>results := results w3 @
              [\<lparr> trialNumber = i + 1, stimulusId = sequence ! i,
                 character = character_of w3 (sequence ! i), reactionTime = rt,
                 timestamp = ts, wasPaused = isPaused w3 \<rparr>]\<rparr>) env3 = Some (ok, wc, env5)"
    and w5: "w5 = (if ok then wc else saveToLocalStorage wc
        \<lparr> trialNumber = i + 1, stimulusId = sequence ! i,
         character = character_of w3 (sequence ! i), reactionTime = rt,
         timestamp = ts, wasPaused = isPaused w3 \<rparr>)"
    by (auto simp: submitTrialResult_def split: option.splits)
  show "\<not> isPaused w'" "onResumeCallback w' = Some HidePauseScreen"
    using wait_for_ui [OF b [unfolded sleep_def]] wait_for_ui [OF sa] w5 3
    by (auto simp: saveToLocalStorage_def clearOldBuffers_def split: if_splits)
  have r: "results w' = results w3 @
              [\<lparr> trialNumber = i + 1, stimulusId = sequence ! i,
                 character = character_of w3 (sequence ! i), reactionTime = rt,
                 timestamp = ts, wasPaused = isPaused w3 \<rparr>]"
    using wait_for_ui [OF b [unfolded sleep_def]] wait_for_ui [OF sa] w5
    by (auto simp: saveToLocalStorage_def clearOldBuffers_def split: if_splits)
  show "\<exists>t. results w' = results w @ [t] \<and> trialNumber t = i + 1 \<and> \<not> wasPaused t"
    unfolding r using 3 by simp
qed


lemma in_flight_pending_iterate_trials:
  "in_flight_pending w \<Longrightarrow> in_flight_pending (iterate_trials w sequence i n env)"
proof (induction n arbitrary: w i env)
  case 0
  then show ?case by simp
next
  case (Suc n)
  show ?case
  proof (cases "trial_iteration w sequence i env")
    case None
    with Suc.prems show ?thesis by simp
  next
    case (Some a)
    obtain r w1 env1 where a: "a = (r, w1, env1)"
      by (cases a)
    show ?thesis
    proof (cases r)
      case (Inl e)
      with Some a Suc.prems show ?thesis by simp
    next
      case (Inr u)
      from in_flight_pending_trial_iteration [OF Some [unfolded a Inr] Suc.prems]
      have "in_flight_pending (iterate_trials w1 sequence (Suc i) n env1)"
        by (rule Suc.IH)
      with Some a Inr show ?thesis by simp
    qed
  qed
qed

section \<open>The write of a trial\<close>

lemma stored_iff: "list_ex (\<lambda>r. session_id r = sid \<and> trial_number r = n) (trials db) \<longleftrightarrow> stored db sid n \<noteq> []"
  by (auto simp: stored_def list_ex_iff filter_empty_conv)

lemma trials_insert_or_ignore_session [simp]:
  "trials (insert_or_ignore_session db row) = trials db"
  by (simp add: insert_or_ignore_session_def)

lemma saveTrial_duplicate:
  assumes "stored db sid (trialNumber t) \<noteq> []" and "character t \<noteq> None"
  shows "fst (saveTrial db sid agent resolution t now) = Some UniqueConstraintFailed"
    and "trials (snd (saveTrial db sid agent resolution t now)) = trials db"
  using assms
  by (simp_all add: saveTrial_def Let_def insert_trial_def stored_iff stored_def)

lemma saveTrial_new:
  assumes "stored db sid (trialNumber t) = []" and "character t \<noteq> None"
  shows "fst (saveTrial db sid agent resolution t now) = None"
    and "length (stored (snd (saveTrial db sid agent resolution t now)) sid (trialNumber t)) = 1"
  using assms
  by (simp_all add: saveTrial_def Let_def insert_trial_def stored_iff [simplified stored_def]
      stored_def update_last_trial_at_def)


lemma post_trial_duplicate:
  assumes "trial d = Some t" and "sessionId d \<noteq> []" and "character t \<noteq> None"
    and "stored db (sessionId d) (trialNumber t) \<noteq> []"
  shows "fst (post_trial db d now) = 500"
    and "trials (snd (post_trial db d now)) = trials db"
proof -
  note s = saveTrial_duplicate [OF assms(4,3), of "userAgent d" "screenResolution d" now]
  obtain e db1 where p: "saveTrial db (sessionId d) (userAgent d) (screenResolution d) t now = (e, db1)"
    by (cases "saveTrial db (sessionId d) (userAgent d) (screenResolution d) t now")
  with s have "e = Some UniqueConstraintFailed" "trials db1 = trials db"
    by simp_all
  with p assms(1,2) show "fst (post_trial db d now) = 500"
    and "trials (snd (post_trial db d now)) = trials db"
    by (simp_all add: post_trial_def)
qed

lemma post_trial_new:
  assumes "trial d = Some t" and "sessionId d \<noteq> []" and "character t \<noteq> None"
    and "stored db (sessionId d) (trialNumber t) = []"
  shows "fst (post_trial db d now) = 200"
    and "length (stored (snd (post_trial db d now)) (sessionId d) (trialNumber t)) = 1"
proof -
  note s = saveTrial_new [OF assms(4,3), of "userAgent d" "screenResolution d" now]
  obtain e db1 where p: "saveTrial db (sessionId d) (userAgent d) (screenResolution d) t now = (e, db1)"
    by (cases "saveTrial db (sessionId d) (userAgent d) (screenResolution d) t now")
  with s have "e = None" "length (stored db1 (sessionId d) (trialNumber t)) = 1"
    by simp_all
  with p assms(1,2) show "fst (post_trial db d now) = 200"
    and "length (stored (snd (post_trial db d now)) (sessionId d) (trialNumber t)) = 1"
    by (simp_all add: post_trial_def)
qed

text \<open>
  The claim as stated fails: the same submission sent a second time is answered with
  status 500, not with success.
\<close>

theorem second_submission_fails_counterexample:
  "fst (post_trial empty_database demo_submission ''t1'') = 200
   \<and> fst (post_trial (snd (post_trial empty_database demo_submission ''t1''))
            demo_submission ''t1'') = 500"
  by code_simp

section \<open>A wait that fails, in general\<close>

lemma await_promise_overlay:
  "await_promise w h env = Some (r, w', env') \<Longrightarrow>
     notified w' = notified w \<and> overlayShown w' = overlayShown w"
  by (induction env arbitrary: w) (auto split: option.splits)

lemma getAudioBuffer_quiet:
  assumes "getAudioBuffer w stimId False env = Some (r, w', env')"
  shows "notified w' = notified w \<and> overlayShown w' = overlayShown w \<and> isPaused w' = isPaused w"
proof (cases "map_of (audioBuffers w) stimId")
  case (Some buf)
  with assms show ?thesis
    by (simp add: getAudioBuffer_def)
next
  case None
  show ?thesis
  proof (cases "map_of (loadingPromises w) stimId")
    case (Some h)
    with assms None obtain r2 where
      a: "await_promise w h env = Some (r2, w', env')"
      by (auto simp: getAudioBuffer_def Let_def split: option.splits sum.splits)
    from await_promise_overlay [OF a] await_promise_ui [OF a] show ?thesis
      by simp
  next
    case no_load: None
    show ?thesis
    proof (cases "stimId \<in> set (failedLoads w)")
      case True
      with assms None no_load show ?thesis
        by (simp add: getAudioBuffer_def Let_def loadAudio_failed)
    next
      case False
      define w2 where "w2 = snd (loadAudio w stimId)"
      have l: "loadAudio w stimId = (Inr (length (promises w)), w2)"
        using False by (simp add: w2_def loadAudio_fresh)
      have c: "notified w2 = notified w" "overlayShown w2 = overlayShown w"
        "isPaused w2 = isPaused w"
        by (simp_all add: w2_def)
      from assms None no_load l obtain r3 where
        a: "await_promise w2 (length (promises w)) env = Some (r3, w', env')"
        by (auto simp: getAudioBuffer_def Let_def split: option.splits sum.splits)
      from await_promise_overlay [OF a] await_promise_ui [OF a] c show ?thesis
        by simp
    qed
  qed
qed

text \<open>
  With the pause callback of the experiment registered, whenever
  \<^verbatim>\<open>ensureNextTrialReady\<close> throws, the pause screen was shown and never hidden.
\<close>

lemma failed_wait_never_resumed:
  assumes "ensureNextTrialReady w sequence i env = Some (Inl e, w', env')"
    and "onPauseCallback w = Some ShowPauseScreen"
  shows "notified w' = notified w @ [EnterWait (sequence ! i)] \<and> overlayShown w' \<and> isPaused w'"
proof -
  from assms(1) have g:
    "getAudioBuffer (call_onPause w (sequence ! i)) (sequence ! i) False env =
       Some (Inl e, w', env')"
    by (auto simp: ensureNextTrialReady_def Let_def split: option.splits sum.splits if_splits)
  from getAudioBuffer_quiet [OF g] assms(2) show ?thesis
    by (simp add: call_onPause_def showPauseScreen_def)
qed

section \<open>Progress, in full\<close>

lemma foldl_plus_sum_list: "foldl (+) (a :: rat) xs = a + sum_list xs"
  by (induction xs arbitrary: a) (simp_all add: add.assoc)

lemma loadedCount_settle:
  "loadedCount (settle w h out) =
     loadedCount w +
     (if h < length (promises w) \<and> snd (promises w ! h) = Pending \<and> isl out = False then 1 else 0)"
  by (cases out) (auto simp: settle_def Let_def split: prod.splits)

lemma loadedCount_deliver:
  "loadedCount (deliver w ev) =
     loadedCount w +
     (case ev of
        Settled h out \<Rightarrow>
          if h < length (promises w) \<and> snd (promises w ! h) = Pending \<and> isl out = False
          then 1 else 0
      | _ \<Rightarrow> 0)"
  by (cases ev) (simp_all add: deliver_def loadedCount_settle)

lemma getProgress_values:
  "loaded (getProgress w) = loadedCount w"
  "total_stimuli (getProgress w) = totalStimuli w"
  "percentage (getProgress w) =
     (if totalStimuli w = 0 then (if loadedCount w = 0 then NaN else Infinity)
      else Finite (of_nat (loadedCount w) / of_nat (totalStimuli w) * 100))"
  "avgLoadTime (getProgress w) =
     (if loadTimes w = [] then 0 else sum_list (loadTimes w) / of_nat (length (loadTimes w)))"
  by (cases "loadTimes w"; simp add: getProgress_def foldl_plus_sum_list)+


lemma loadTimes_settle:
  "length (loadTimes (settle w h out)) =
     length (loadTimes w) +
     (if h < length (promises w) \<and> snd (promises w ! h) = Pending \<and> isl out = False then 1 else 0)"
  by (cases out) (auto simp: settle_def Let_def split: prod.splits)

lemma reloaded_values:
  "loaded (getProgress reloaded) = 2 \<and> length (audioBuffers reloaded) = 1
   \<and> percentage (getProgress reloaded) = Finite 200"
  by code_simp

text \<open>
  Claim C10. \<^verbatim>\<open>getProgress\<close> reports \<open>loadedCount\<close>, which changes only when a
  pending load settles: a load that completes with success adds exactly one, a load that
  fails adds nothing, and neither starting a load nor evicting buffers changes it, so it
  counts completions and not cached entries. The percentage is
  \<open>loadedCount / totalStimuli * 100\<close> (with the values of JavaScript for a total of 0).
  After a stimulus was loaded, evicted and loaded again (state \<open>reloaded\<close>, one stimulus
  in total) the counter is 2 with one cached entry and the percentage is 200. The list of
  load times grows with the counter, and the mean load time is 0 when it is empty and
  the sum divided by the length otherwise.
\<close>

theorem loadedCount_counts_completions:
  "(\<forall>h out. loaded (getProgress (settle w h out)) =
       loaded (getProgress w) +
       (if h < length (promises w) \<and> snd (promises w ! h) = Pending \<and> isl out = False
        then 1 else 0))
   \<and> (\<forall>h out. length (loadTimes (settle w h out)) =
       length (loadTimes w) +
       (if h < length (promises w) \<and> snd (promises w ! h) = Pending \<and> isl out = False
        then 1 else 0))
   \<and> loaded (getProgress (snd (loadAudio w stimId))) = loaded (getProgress w)
   \<and> loaded (getProgress (clearOldBuffers w sequence i k)) = loaded (getProgress w)
   \<and> loaded (getProgress w) = loadedCount w
   \<and> percentage (getProgress w) =
       (if totalStimuli w = 0 then (if loadedCount w = 0 then NaN else Infinity)
        else Finite (of_nat (loadedCount w) / of_nat (totalStimuli w) * 100))
   \<and> avgLoadTime (getProgress w) =
       (if loadTimes w = [] then 0 else sum_list (loadTimes w) / of_nat (length (loadTimes w)))
   \<and> loaded (getProgress reloaded) = 2 \<and> length (audioBuffers reloaded) = 1
   \<and> percentage (getProgress reloaded) = Finite 200
   \<and> loaded (getProgress (new_preloader n a)) = 0
   \<and> avgLoadTime (getProgress (new_preloader n a)) = 0"
proof -
  have 1: "\<forall>h out. loaded (getProgress (settle w h out)) =
       loaded (getProgress w) +
       (if h < length (promises w) \<and> snd (promises w ! h) = Pending \<and> isl out = False
        then 1 else 0)"
    unfolding getProgress_values by (intro allI) (rule loadedCount_settle)
  have 2: "\<forall>h out. length (loadTimes (settle w h out)) =
       length (loadTimes w) +
       (if h < length (promises w) \<and> snd (promises w ! h) = Pending \<and> isl out = False
        then 1 else 0)"
    by (intro allI) (rule loadTimes_settle)
  have 3: "loaded (getProgress (snd (loadAudio w stimId))) = loaded (getProgress w)"
    by (simp add: getProgress_values)
  have 4: "loaded (getProgress (clearOldBuffers w sequence i k)) = loaded (getProgress w)"
    by (simp add: getProgress_values clearOldBuffers_def)
  note 5 = getProgress_values(1) [of w] getProgress_values(3) [of w] getProgress_values(4) [of w]
  have 6: "loaded (getProgress reloaded) = 2" "length (audioBuffers reloaded) = 1"
    "percentage (getProgress reloaded) = Finite 200"
    using reloaded_values by blast+
  have 7: "loaded (getProgress (new_preloader n a)) = 0"
    "avgLoadTime (getProgress (new_preloader n a)) = 0"
    by (simp_all add: getProgress_values new_preloader_def)
  show ?thesis
    by (intro conjI; fact)
qed

theorem loadedCount_counts_completions_witness:
  "loaded (getProgress (snd (loadAudio (new_preloader 2 3) 1))) = 0
   \<and> loaded (getProgress (settle (snd (loadAudio (new_preloader 2 3) 1)) 0 (Inr (10, 5)))) = 1
   \<and> loaded (getProgress (settle (snd (loadAudio (new_preloader 2 3) 1)) 0 (Inl FetchFailed))) = 0
   \<and> percentage (getProgress (settle (snd (loadAudio (new_preloader 2 3) 1)) 0 (Inr (10, 5))))
       = Finite 50
   \<and> avgLoadTime (getProgress (settle (snd (loadAudio (new_preloader 2 3) 1)) 0 (Inr (10, 5))))
       = 5"
proof -
  define w0 where "w0 = snd (loadAudio (new_preloader 2 3) 1)"
  define w1 where "w1 = settle w0 0 (Inr (10, 5))"
  have p: "0 < length (promises w0) \<and> snd (promises w0 ! 0) = Pending"
    unfolding w0_def by code_simp
  have l0: "loadedCount w0 = 0"
    unfolding w0_def by code_simp
  have f1: "totalStimuli w1 = 2" "loadTimes w1 = [5]"
    unfolding w1_def w0_def by code_simp+
  note t0 = loadedCount_counts_completions [of w0 1 "[]" 0 0 2 3]
  note t1 = loadedCount_counts_completions [of w1 1 "[]" 0 0 2 3]
  from t0 have a: "loaded (getProgress w0) = loadedCount w0"
    by (elim conjE)
  from t0 have s: "\<forall>h out. loaded (getProgress (settle w0 h out)) =
       loaded (getProgress w0) +
       (if h < length (promises w0) \<and> snd (promises w0 ! h) = Pending \<and> isl out = False
        then 1 else 0)"
    by (elim conjE)
  from a l0 have 1: "loaded (getProgress w0) = 0"
    by simp
  from s [rule_format, of 0 "Inr (10, 5)"] p 1
  have 2: "loaded (getProgress (settle w0 0 (Inr (10, 5)))) = 1"
    by simp
  from s [rule_format, of 0 "Inl FetchFailed"] p 1
  have 3: "loaded (getProgress (settle w0 0 (Inl FetchFailed))) = 0"
    by simp
  from t1 have "loaded (getProgress w1) = loadedCount w1"
    by (elim conjE)
  with 2 have c1: "loadedCount w1 = 1"
    by (simp add: w1_def)
  from t1 have "percentage (getProgress w1) =
       (if totalStimuli w1 = 0 then (if loadedCount w1 = 0 then NaN else Infinity)
        else Finite (of_nat (loadedCount w1) / of_nat (totalStimuli w1) * 100))"
    by (elim conjE)
  then have 4: "percentage (getProgress w1) = Finite 50"
    unfolding c1 f1 by simp
  from t1 have "avgLoadTime (getProgress w1) =
       (if loadTimes w1 = [] then 0 else sum_list (loadTimes w1) / of_nat (length (loadTimes w1)))"
    by (elim conjE)
  then have 5: "avgLoadTime (getProgress w1) = 5"
    unfolding f1 by simp
  from 1 2 3 4 5 show ?thesis
    unfolding w1_def w0_def by (intro conjI)
qed

section \<open>The write of a trial, in full\<close>

lemma post_trial_malformed:
  "trial d = None \<or> sessionId d = [] \<Longrightarrow> post_trial db d now = (400, db)"
  by (auto simp: post_trial_def split: option.splits)

lemma post_trial_no_character:
  assumes "trial d = Some t" and "sessionId d \<noteq> []" and "character t = None"
  shows "fst (post_trial db d now) = 500" and "trials (snd (post_trial db d now)) = trials db"
  using assms
  by (simp_all add: post_trial_def saveTrial_def Let_def insert_trial_def)

lemma post_trial_stored:
  assumes "trial d = Some t" and "sessionId d \<noteq> []"
    and "stored db (sessionId d) (trialNumber t) \<noteq> []"
  shows "fst (post_trial db d now) = 500" and "trials (snd (post_trial db d now)) = trials db"
proof -
  show "fst (post_trial db d now) = 500"
  proof (cases "character t = None")
    case True
    with assms(1,2) show ?thesis by (rule post_trial_no_character)
  next
    case False
    with assms show ?thesis by (simp add: post_trial_duplicate)
  qed
  show "trials (snd (post_trial db d now)) = trials db"
  proof (cases "character t = None")
    case True
    with assms(1,2) show ?thesis by (rule post_trial_no_character)
  next
    case False
    with assms show ?thesis by (simp add: post_trial_duplicate)
  qed
qed

lemma post_trial_appends:
  assumes "trial d = Some t" and "sessionId d \<noteq> []" and "character t \<noteq> None"
    and "stored db (sessionId d) (trialNumber t) = []"
  shows "trials (snd (post_trial db d now)) =
           trials db @
           [\<lparr> row_id = next_row_id db, session_id = sessionId d, trial_number = trialNumber t,
              stimulus_id = stimulusId t, row_character = character t,
              reaction_time = reactionTime t, row_timestamp = timestamp t,
              was_paused = wasPaused t, saved_at = now \<rparr>]"
  using assms
  by (simp add: post_trial_def saveTrial_def Let_def insert_trial_def
      stored_iff [simplified stored_def] stored_def update_last_trial_at_def
      insert_or_ignore_session_def)

text \<open>
  Claim C4 as the code has it. The write of a trial is a plain \<^verbatim>\<open>INSERT\<close> under the
  constraint \<^verbatim>\<open>UNIQUE(session_id, trial_number)\<close>, not an upsert. A submission without
  session identifier or trial is answered with status 400 and changes nothing. Otherwise,
  when a row for the session and trial number is stored, or when the trial has no
  character, the answer is status 500 and the table of trials is left as it is; when no
  row for the key is stored and the trial has its character, the answer is status 200
  and exactly the row of the submission is appended. So the same submission sent twice
  succeeds the first time, fails with status 500 the second time, and leaves exactly one
  row for its key.
\<close>

theorem duplicate_trial_rejected:
  "(trial d = None \<or> sessionId d = [] \<longrightarrow> post_trial db d now = (400, db))
   \<and> (\<forall>t. trial d = Some t \<and> sessionId d \<noteq> [] \<longrightarrow>
        (stored db (sessionId d) (trialNumber t) \<noteq> [] \<or> character t = None \<longrightarrow>
           fst (post_trial db d now) = 500 \<and> trials (snd (post_trial db d now)) = trials db)
        \<and> (stored db (sessionId d) (trialNumber t) = [] \<and> character t \<noteq> None \<longrightarrow>
             fst (post_trial db d now) = 200
             \<and> trials (snd (post_trial db d now)) =
                 trials db @
                 [\<lparr> row_id = next_row_id db, session_id = sessionId d,
                    trial_number = trialNumber t, stimulus_id = stimulusId t,
                    row_character = character t, reaction_time = reactionTime t,
                    row_timestamp = timestamp t, was_paused = wasPaused t, saved_at = now \<rparr>]
             \<and> length (stored (snd (post_trial db d now)) (sessionId d) (trialNumber t)) = 1
             \<and> fst (post_trial (snd (post_trial db d now)) d now') = 500
             \<and> trials (snd (post_trial (snd (post_trial db d now)) d now')) =
                 trials (snd (post_trial db d now))
             \<and> length (stored (snd (post_trial (snd (post_trial db d now)) d now'))
                  (sessionId d) (trialNumber t)) = 1))"
proof (intro conjI allI impI)
  assume "trial d = None \<or> sessionId d = []"
  then show "post_trial db d now = (400, db)"
    by (rule post_trial_malformed)
next
  fix t
  assume a: "trial d = Some t \<and> sessionId d \<noteq> []"
  assume b: "stored db (sessionId d) (trialNumber t) \<noteq> [] \<or> character t = None"
  from a b show "fst (post_trial db d now) = 500"
    by (auto simp: post_trial_stored post_trial_no_character)
next
  fix t
  assume a: "trial d = Some t \<and> sessionId d \<noteq> []"
  assume b: "stored db (sessionId d) (trialNumber t) \<noteq> [] \<or> character t = None"
  from a b show "trials (snd (post_trial db d now)) = trials db"
    by (auto simp: post_trial_stored post_trial_no_character)
next
  fix t
  assume a: "trial d = Some t \<and> sessionId d \<noteq> []"
  assume b: "stored db (sessionId d) (trialNumber t) = [] \<and> character t \<noteq> None"
  from a b show "fst (post_trial db d now) = 200"
    by (simp add: post_trial_new)
next
  fix t
  assume a: "trial d = Some t \<and> sessionId d \<noteq> []"
  assume b: "stored db (sessionId d) (trialNumber t) = [] \<and> character t \<noteq> None"
  from a b show "trials (snd (post_trial db d now)) =
                 trials db @
                 [\<lparr> row_id = next_row_id db, session_id = sessionId d,
                    trial_number = trialNumber t, stimulus_id = stimulusId t,
                    row_character = character t, reaction_time = reactionTime t,
                    row_timestamp = timestamp t, was_paused = wasPaused t, saved_at = now \<rparr>]"
    by (simp add: post_trial_appends)
next
  fix t
  assume a: "trial d = Some t \<and> sessionId d \<noteq> []"
  assume b: "stored db (sessionId d) (trialNumber t) = [] \<and> character t \<noteq> None"
  from a b show "length (stored (snd (post_trial db d now)) (sessionId d) (trialNumber t)) = 1"
    by (simp add: post_trial_new)
next
  fix t
  assume a: "trial d = Some t \<and> sessionId d \<noteq> []"
  assume b: "stored db (sessionId d) (trialNumber t) = [] \<and> character t \<noteq> None"
  from a b have "length (stored (snd (post_trial db d now)) (sessionId d) (trialNumber t)) = 1"
    by (simp add: post_trial_new)
  then have ne: "stored (snd (post_trial db d now)) (sessionId d) (trialNumber t) \<noteq> []"
    by auto
  from a ne show "fst (post_trial (snd (post_trial db d now)) d now') = 500"
    by (simp add: post_trial_stored)
next
  fix t
  assume a: "trial d = Some t \<and> sessionId d \<noteq> []"
  assume b: "stored db (sessionId d) (trialNumber t) = [] \<and> character t \<noteq> None"
  from a b have "length (stored (snd (post_trial db d now)) (sessionId d) (trialNumber t)) = 1"
    by (simp add: post_trial_new)
  then have ne: "stored (snd (post_trial db d now)) (sessionId d) (trialNumber t) \<noteq> []"
    by auto
  from a ne show "trials (snd (post_trial (snd (post_trial db d now)) d now')) =
                 trials (snd (post_trial db d now))"
    by (simp add: post_trial_stored)
next
  fix t
  assume a: "trial d = Some t \<and> sessionId d \<noteq> []"
  assume b: "stored db (sessionId d) (trialNumber t) = [] \<and> character t \<noteq> None"
  from a b have one: "length (stored (snd (post_trial db d now)) (sessionId d) (trialNumber t)) = 1"
    by (simp add: post_trial_new)
  then have ne: "stored (snd (post_trial db d now)) (sessionId d) (trialNumber t) \<noteq> []"
    by auto
  from a ne have "trials (snd (post_trial (snd (post_trial db d now)) d now')) =
                 trials (snd (post_trial db d now))"
    by (simp add: post_trial_stored)
  then have "stored (snd (post_trial (snd (post_trial db d now)) d now'))
               (sessionId d) (trialNumber t) =
             stored (snd (post_trial db d now)) (sessionId d) (trialNumber t)"
    by (simp add: stored_def)
  with one show "length (stored (snd (post_trial (snd (post_trial db d now)) d now'))
                  (sessionId d) (trialNumber t)) = 1"
    by simp
qed

theorem duplicate_trial_rejected_witness:
  "trial demo_submission \<noteq> None \<and> sessionId demo_submission \<noteq> []
   \<and> stored empty_database (sessionId demo_submission) 1 = []
   \<and> fst (post_trial empty_database demo_submission ''t1'') = 200
   \<and> fst (post_trial (snd (post_trial empty_database demo_submission ''t1''))
            demo_submission ''t2'') = 500
   \<and> length (stored (snd (post_trial (snd (post_trial empty_database demo_submission ''t1''))
                 demo_submission ''t2'')) (sessionId demo_submission) 1) = 1"
proof -
  define t where "t = \<lparr> trialNumber = 1, stimulusId = 5, character = Some ''x'',
                      reactionTime = 700, timestamp = 1000, wasPaused = False \<rparr>"
  have 1: "trial demo_submission = Some t \<and> sessionId demo_submission \<noteq> []"
    by (simp add: demo_submission_def t_def)
  have n: "trialNumber t = 1"
    by (simp add: t_def)
  have 4: "stored empty_database (sessionId demo_submission) 1 = []"
    by (simp add: stored_def empty_database_def)
  have 3: "stored empty_database (sessionId demo_submission) (trialNumber t) = []
           \<and> character t \<noteq> None"
    using 4 by (simp add: t_def)
  note th = duplicate_trial_rejected [of demo_submission empty_database "''t1''" "''t2''",
      THEN conjunct2, rule_format, OF 1, THEN conjunct2, rule_format, OF 3, unfolded n]
  from 1 have 0: "trial demo_submission \<noteq> None" "sessionId demo_submission \<noteq> []"
    by simp_all
  from th have 5: "fst (post_trial empty_database demo_submission ''t1'') = 200"
    by (elim conjE)
  from th have 6: "fst (post_trial (snd (post_trial empty_database demo_submission ''t1''))
            demo_submission ''t2'') = 500"
    by (elim conjE)
  from th have 7: "length (stored (snd (post_trial (snd (post_trial empty_database
       demo_submission ''t1'')) demo_submission ''t2'')) (sessionId demo_submission) 1) = 1"
    by (elim conjE)
  show ?thesis
    by (intro conjI; fact)
qed

section \<open>Loading ahead after a failed load\<close>

text \<open>
  The claim C9 as stated fails in a state the runner reaches: the look-ahead load of
  stimulus 6 has failed during the first trial. At the second trial the stimuli of the
  window that are neither cached nor in flight are 6 and 7, and \<^verbatim>\<open>preloadAhead\<close>
  starts a load for 7 only: the call of \<^verbatim>\<open>loadAudio\<close> for 6 is rejected at once.
\<close>

theorem preloadAhead_skips_failed_counterexample:
  "ensureNextTrialReady long_second long_sequence 1 [] = Some (Inr True, long_second, [])
   \<and> ahead_ids long_second long_sequence 1 = [6, 7]
   \<and> \<not> has (audioBuffers long_second) 6 \<and> \<not> has (loadingPromises long_second) 6
   \<and> fetches (preloadAhead long_second long_sequence 1) = fetches long_second @ [7]
   \<and> promises (preloadAhead long_second long_sequence 1) = promises long_second @ [(7, Pending)]
   \<and> loadingPromises (preloadAhead long_second long_sequence 1) = [(7, 6)]"
  by code_simp

section \<open>The initial window, in full\<close>

lemma settled_settle:
  "settled w h = Some r \<Longrightarrow> settled (settle w h' out) h = Some r"
proof (cases "h' = h")
  case True
  assume "settled w h = Some r"
  then have "\<not> (h < length (promises w) \<and> snd (promises w ! h) = Pending)"
    by (auto simp: settled_def split: if_splits)
  with True have "settle w h' out = w"
    by (auto simp: settle_def)
  with \<open>settled w h = Some r\<close> show ?thesis by simp
next
  case False
  assume "settled w h = Some r"
  with False show ?thesis
    by (auto simp: settled_def settle_other split: if_splits)
qed

lemma settled_deliver:
  "settled w h = Some r \<Longrightarrow> settled (deliver w ev) h = Some r"
  by (cases ev) (simp_all add: deliver_def settled_settle)

lemma outcome_deliver:
  "outcome w x = Some r \<Longrightarrow> outcome (deliver w ev) x = Some r"
  by (cases x) (auto simp: outcome_def settled_deliver)

lemma all_settled_deliver:
  assumes "all_settled w rs = Some ok"
  shows "all_settled (deliver w ev) rs = Some ok"
proof (cases ok)
  case False
  with assms have "all_settled w rs = Some False"
    by simp
  from all_settled_False [OF this] obtain x e where
    x: "x \<in> set rs" "outcome w x = Some (Inl e)"
    by blast
  from outcome_deliver [OF x(2), of ev]
  have "case outcome (deliver w ev) x of Some (Inl e) \<Rightarrow> True | _ \<Rightarrow> False"
    by simp
  with x(1)
  have "list_ex (\<lambda>r. case outcome (deliver w ev) r of Some (Inl e) \<Rightarrow> True | _ \<Rightarrow> False) rs"
    unfolding list_ex_iff by (rule bexI [rotated])
  with False show ?thesis
    by (simp add: all_settled_def)
next
  case True
  with assms have t: "all_settled w rs = Some True" by simp
  have a: "\<forall>x\<in>set rs. \<exists>h buf. x = Inr h \<and> settled (deliver w ev) h = Some (Inr buf)"
    using all_settled_True [OF t] settled_deliver by blast
  then have "\<not> list_ex (\<lambda>r. case outcome (deliver w ev) r of Some (Inl e) \<Rightarrow> True | _ \<Rightarrow> False) rs"
    by (auto simp: list_ex_iff outcome_def)
  moreover from a
  have "list_all (\<lambda>r. case outcome (deliver w ev) r of Some (Inr buf) \<Rightarrow> True | _ \<Rightarrow> False) rs"
    by (auto simp: list_all_iff outcome_def)
  ultimately show ?thesis
    using True by (simp add: all_settled_def)
qed

lemma deliver_all_Nil [simp]: "deliver_all w [] = w"
  by (simp add: deliver_all_def)

lemma deliver_all_Cons [simp]: "deliver_all w (ev # env) = deliver_all (deliver w ev) env"
  by (simp add: deliver_all_def)

lemma length_promises_deliver_all:
  "length (promises (deliver_all w env)) = length (promises w)"
  by (induction env arbitrary: w) simp_all

lemma all_settled_deliver_all:
  "all_settled w rs = Some ok \<Longrightarrow> all_settled (deliver_all w env) rs = Some ok"
  by (induction env arbitrary: w) (simp_all add: all_settled_deliver)

text \<open>
  \<^verbatim>\<open>Promise.all\<close> does return: when the events of the environment settle the loads,
  all with success or one of them without, the wait ends with that result.
\<close>

lemma await_all_returns:
  "all_settled (deliver_all w env) rs = Some ok \<Longrightarrow>
     \<exists>w' env'. await_all w rs env = Some (ok, w', env')"
proof (induction env arbitrary: w)
  case Nil
  then show ?case by simp
next
  case (Cons ev env)
  show ?case
  proof (cases "all_settled w rs")
    case None
    with Cons.IH [of "deliver w ev"] Cons.prems show ?thesis
      by simp
  next
    case (Some ok')
    from all_settled_deliver_all [OF Some, of "ev # env"] Cons.prems have "ok' = ok"
      by simp
    with Some show ?thesis
      by simp
  qed
qed

lemma preloadInitial_returns:
  assumes "all_settled (deliver_all (fire w (take (bufferAhead w) sequence)) env)
             (fst (start_all w (take (bufferAhead w) sequence))) = Some ok"
  shows "\<exists>w' env'. preloadInitial w sequence env =
           Some (if ok then Inr True else Inl InitialBatchFailed, w', env')"
proof -
  from await_all_returns [OF assms] obtain w' env' where
    "await_all (fire w (take (bufferAhead w) sequence))
       (fst (start_all w (take (bufferAhead w) sequence))) env = Some (ok, w', env')"
    by blast
  then show ?thesis
    by (simp add: preloadInitial_alt)
qed

lemma start_all_failed:
  "stimId \<in> set ids \<Longrightarrow> stimId \<in> set (failedLoads w) \<Longrightarrow>
     Inl (PreviouslyFailed stimId) \<in> set (fst (start_all w ids))"
proof (induction ids arbitrary: w)
  case Nil
  then show ?case by simp
next
  case (Cons a ids)
  show ?case
  proof (cases "a = stimId")
    case True
    with Cons.prems show ?thesis
      by (simp add: start_all_Cons loadAudio_failed del: start_all.simps(2))
  next
    case False
    with Cons.prems have "stimId \<in> set ids" "stimId \<in> set (failedLoads (snd (loadAudio w a)))"
      by simp_all
    from Cons.IH [OF this] show ?thesis
      by (simp add: start_all_Cons del: start_all.simps(2))
  qed
qed

lemma preloadInitial_fails:
  assumes "(\<exists>stimId\<in>set (take (bufferAhead w) sequence). stimId \<in> set (failedLoads w))
           \<or> (\<exists>h e. length (promises w) \<le> h
                 \<and> h < length (promises w) + length (take (bufferAhead w) sequence)
                 \<and> snd (promises (deliver_all (fire w (take (bufferAhead w) sequence)) env) ! h)
                     = Rejected e)"
  shows "\<exists>w' env'. preloadInitial w sequence env = Some (Inl InitialBatchFailed, w', env')"
proof -
  define batch where "batch = take (bufferAhead w) sequence"
  define rs where "rs = fst (start_all w batch)"
  define w2 where "w2 = deliver_all (fire w batch) env"
  have len: "length (promises w2) = length (promises (fire w batch))"
    unfolding w2_def by (rule length_promises_deliver_all)
  have "\<exists>x\<in>set rs. \<exists>e. outcome w2 x = Some (Inl e)"
  proof (cases "\<exists>stimId\<in>set batch. stimId \<in> set (failedLoads w)")
    case True
    then obtain stimId where "stimId \<in> set batch" "stimId \<in> set (failedLoads w)"
      by blast
    from start_all_failed [OF this]
    have "Inl (PreviouslyFailed stimId) \<in> set rs"
      unfolding rs_def .
    moreover have "outcome w2 (Inl (PreviouslyFailed stimId)) = Some (Inl (PreviouslyFailed stimId))"
      by (simp add: outcome_def)
    ultimately show ?thesis
      by blast
  next
    case False
    with assms obtain h e where h: "length (promises w) \<le> h"
      "h < length (promises w) + length batch" "snd (promises w2 ! h) = Rejected e"
      unfolding batch_def w2_def by blast
    from False have nf: "\<forall>stimId\<in>set batch. stimId \<notin> set (failedLoads w)"
      by simp
    then have rs': "rs = map Inr [length (promises w) ..< length (promises w) + length batch]"
      unfolding rs_def by (rule start_all_handles)
    from nf have "filter (\<lambda>stimId. stimId \<notin> set (failedLoads w)) batch = batch"
      by simp
    then have "length (promises (fire w batch)) = length (promises w) + length batch"
      by (simp add: fire_promises)
    with h len have "outcome w2 (Inr h) = Some (Inl e)"
      by (simp add: settled_Rejected outcome_def)
    moreover from h have "Inr h \<in> set rs"
      unfolding rs' by simp
    ultimately show ?thesis
      by blast
  qed
  then obtain x e where "x \<in> set rs" "outcome w2 x = Some (Inl e)"
    by blast
  then have "x \<in> set rs" "case outcome w2 x of Some (Inl e) \<Rightarrow> True | _ \<Rightarrow> False"
    by simp_all
  then have "list_ex (\<lambda>r. case outcome w2 r of Some (Inl e) \<Rightarrow> True | _ \<Rightarrow> False) rs"
    unfolding list_ex_iff by (rule bexI [rotated])
  then have "all_settled w2 rs = Some False"
    by (simp add: all_settled_def)
  from preloadInitial_returns [OF this [unfolded w2_def rs_def batch_def]] show ?thesis
    by simp
qed

lemma preloadInitial_succeeds:
  assumes "\<forall>stimId\<in>set (take (bufferAhead w) sequence). stimId \<notin> set (failedLoads w)"
    and "\<forall>h. length (promises w) \<le> h
            \<and> h < length (promises w) + length (take (bufferAhead w) sequence) \<longrightarrow>
            (\<exists>buf. snd (promises (deliver_all (fire w (take (bufferAhead w) sequence)) env) ! h)
                     = Fulfilled buf)"
  shows "\<exists>w' env'. preloadInitial w sequence env = Some (Inr True, w', env')"
proof -
  define batch where "batch = take (bufferAhead w) sequence"
  define rs where "rs = fst (start_all w batch)"
  define w2 where "w2 = deliver_all (fire w batch) env"
  have len: "length (promises w2) = length (promises (fire w batch))"
    unfolding w2_def by (rule length_promises_deliver_all)
  have rs': "rs = map Inr [length (promises w) ..< length (promises w) + length batch]"
    unfolding rs_def batch_def using assms(1) by (rule start_all_handles)
  from assms(1) have "filter (\<lambda>stimId. stimId \<notin> set (failedLoads w)) batch = batch"
    unfolding batch_def by simp
  then have l2: "length (promises (fire w batch)) = length (promises w) + length batch"
    by (simp add: fire_promises)
  have f: "\<forall>x\<in>set rs. \<exists>h buf. x = Inr h \<and> settled w2 h = Some (Inr buf)"
  proof
    fix x
    assume "x \<in> set rs"
    then obtain h where h: "x = Inr h" "length (promises w) \<le> h"
      "h < length (promises w) + length batch"
      unfolding rs' by auto
    with assms(2) obtain buf where "snd (promises w2 ! h) = Fulfilled buf"
      unfolding batch_def w2_def by blast
    with h len l2 have "settled w2 h = Some (Inr buf)"
      by (simp add: settled_Fulfilled)
    with h(1) show "\<exists>h buf. x = Inr h \<and> settled w2 h = Some (Inr buf)"
      by blast
  qed
  then have "\<not> list_ex (\<lambda>r. case outcome w2 r of Some (Inl e) \<Rightarrow> True | _ \<Rightarrow> False) rs"
    by (auto simp: list_ex_iff outcome_def)
  moreover from f
  have "list_all (\<lambda>r. case outcome w2 r of Some (Inr buf) \<Rightarrow> True | _ \<Rightarrow> False) rs"
    by (auto simp: list_all_iff outcome_def)
  ultimately have "all_settled w2 rs = Some True"
    by (simp add: all_settled_def)
  from preloadInitial_returns [OF this [unfolded w2_def rs_def batch_def]] show ?thesis
    by simp
qed


lemma preloadInitial_result:
  assumes "preloadInitial w sequence env = Some (r, w', env')"
  shows "fetches w' =
           fetches w @ filter (\<lambda>stimId. stimId \<notin> set (failedLoads w))
                         (take (bufferAhead w) sequence)
   \<and> (r = Inr True \<or> r = Inl InitialBatchFailed)
   \<and> (r = Inr True \<longrightarrow>
        fetches w' = fetches w @ take (bufferAhead w) sequence
        \<and> (\<forall>h. length (promises w) \<le> h \<and>
                h < length (promises w) + length (take (bufferAhead w) sequence) \<longrightarrow>
                (\<exists>buf. snd (promises w' ! h) = Fulfilled buf))
        \<and> (\<forall>stimId\<in>set (take (bufferAhead w) sequence).
             \<exists>buf. map_of (audioBuffers w') stimId = Some buf \<and>
               (\<forall>showPauseUI env2.
                  getAudioBuffer w' stimId showPauseUI env2 = Some (Inr buf, w', env2))))
   \<and> (r = Inl InitialBatchFailed \<longrightarrow>
        (\<exists>stimId\<in>set (take (bufferAhead w) sequence). stimId \<in> set (failedLoads w')))"
proof -
  define batch where "batch = take (bufferAhead w) sequence"
  define rs where "rs = fst (start_all w batch)"
  from assms obtain ok where
    a: "await_all (fire w batch) rs env = Some (ok, w', env')"
    and r: "r = (if ok then Inr True else Inl InitialBatchFailed)"
    unfolding batch_def rs_def by (rule preloadInitial_unfold)
  have f: "fetches w' = fetches w @ filter (\<lambda>stimId. stimId \<notin> set (failedLoads w)) batch"
    using await_all_fields [OF a] by (simp add: fire_fetches)
  have s: "all_settled w' rs = Some ok"
    using a by (rule await_all_result)
  have l: "list_all2 (load_of w') rs batch"
    using a start_all_loads [of w batch] unfolding rs_def by (rule await_all_loads)
  have 1: "r = Inr True \<or> r = Inl InitialBatchFailed"
    using r by simp
  have 2: "fetches w' = fetches w @ batch
        \<and> (\<forall>h. length (promises w) \<le> h \<and> h < length (promises w) + length batch \<longrightarrow>
                (\<exists>buf. snd (promises w' ! h) = Fulfilled buf))
        \<and> (\<forall>stimId\<in>set batch.
             \<exists>buf. map_of (audioBuffers w') stimId = Some buf \<and>
               (\<forall>showPauseUI env2.
                  getAudioBuffer w' stimId showPauseUI env2 = Some (Inr buf, w', env2)))"
    if "r = Inr True"
  proof -
    from that r have ok: "ok" by (simp split: if_splits)
    with s have t: "all_settled w' rs = Some True" by simp
    note h = all_settled_True [OF t]
    then have "\<forall>r\<in>set (fst (start_all w batch)). \<exists>h. r = Inr h"
      unfolding rs_def by blast
    then have nf: "\<forall>stimId\<in>set batch. stimId \<notin> set (failedLoads w)"
      by (rule start_all_none_failed)
    then have "filter (\<lambda>stimId. stimId \<notin> set (failedLoads w)) batch = batch"
      by simp
    with f have a1: "fetches w' = fetches w @ batch" by simp
    have rs': "rs = map Inr [length (promises w) ..< length (promises w) + length batch]"
      unfolding rs_def using nf by (rule start_all_handles)
    have a2: "\<exists>buf. snd (promises w' ! h) = Fulfilled buf"
      if "length (promises w) \<le> h \<and> h < length (promises w) + length batch" for h
    proof -
      from that have "Inr h \<in> set rs"
        unfolding rs' by simp
      with h obtain buf where "settled w' h = Some (Inr buf)"
        by blast
      then show ?thesis
        by (auto simp: settled_Fulfilled)
    qed
    have a3: "\<exists>buf. map_of (audioBuffers w') stimId = Some buf \<and>
               (\<forall>showPauseUI env2.
                  getAudioBuffer w' stimId showPauseUI env2 = Some (Inr buf, w', env2))"
      if "stimId \<in> set batch" for stimId
    proof -
      from fulfilled_loads_cached [OF t l that] obtain buf where
        "map_of (audioBuffers w') stimId = Some buf"
        by (auto simp: has_map_of)
      then show ?thesis
        by (auto simp: getAudioBuffer_hit)
    qed
    from a1 a2 a3 show ?thesis by blast
  qed
  have 3: "\<exists>stimId\<in>set batch. stimId \<in> set (failedLoads w')"
    if "r = Inl InitialBatchFailed"
  proof -
    from that r have "\<not> ok" by (simp split: if_splits)
    with s have "all_settled w' rs = Some False" by simp
    from rejected_load_failed [OF this l] show ?thesis .
  qed
  from f 1 2 3 show ?thesis
    unfolding batch_def by blast
qed

text \<open>
  Claim C7. \<^verbatim>\<open>preloadInitial(sequence)\<close> calls \<^verbatim>\<open>loadAudio\<close> for the first
  \<open>bufferAhead\<close> stimuli of the sequence and for no other (every one not in the failed
  set is fetched, in order, before anything is awaited). When one of them is in the
  failed set, or when the events of the environment reject one of these loads, it throws
  the error of the initial batch, and that is the only error it throws. When they fulfil
  all of these loads it returns \<open>true\<close>. Whenever it returns \<open>true\<close>, every one of these
  loads is fulfilled and every stimulus of the window is in the cache, so that
  \<^verbatim>\<open>getAudioBuffer\<close> returns the cached buffer at once and leaves the state as it is;
  whenever it throws, a load of the window has failed.
\<close>

theorem preloadInitial_first_window:
  "(\<forall>r w' env'. preloadInitial w sequence env = Some (r, w', env') \<longrightarrow>
      fetches w' =
        fetches w @ filter (\<lambda>stimId. stimId \<notin> set (failedLoads w))
                      (take (bufferAhead w) sequence)
      \<and> (r = Inr True \<or> r = Inl InitialBatchFailed)
      \<and> (r = Inr True \<longrightarrow>
           fetches w' = fetches w @ take (bufferAhead w) sequence
           \<and> (\<forall>h. length (promises w) \<le> h \<and>
                   h < length (promises w) + length (take (bufferAhead w) sequence) \<longrightarrow>
                   (\<exists>buf. snd (promises w' ! h) = Fulfilled buf))
           \<and> (\<forall>stimId\<in>set (take (bufferAhead w) sequence).
                \<exists>buf. map_of (audioBuffers w') stimId = Some buf \<and>
                  (\<forall>showPauseUI env2.
                     getAudioBuffer w' stimId showPauseUI env2 = Some (Inr buf, w', env2))))
      \<and> (r = Inl InitialBatchFailed \<longrightarrow>
           (\<exists>stimId\<in>set (take (bufferAhead w) sequence). stimId \<in> set (failedLoads w'))))
   \<and> ((\<exists>stimId\<in>set (take (bufferAhead w) sequence). stimId \<in> set (failedLoads w))
        \<or> (\<exists>h e. length (promises w) \<le> h
              \<and> h < length (promises w) + length (take (bufferAhead w) sequence)
              \<and> snd (promises (deliver_all (fire w (take (bufferAhead w) sequence)) env) ! h)
                  = Rejected e)
        \<longrightarrow> (\<exists>w' env'. preloadInitial w sequence env = Some (Inl InitialBatchFailed, w', env')))
   \<and> ((\<forall>stimId\<in>set (take (bufferAhead w) sequence). stimId \<notin> set (failedLoads w))
        \<and> (\<forall>h. length (promises w) \<le> h
              \<and> h < length (promises w) + length (take (bufferAhead w) sequence) \<longrightarrow>
              (\<exists>buf. snd (promises (deliver_all (fire w (take (bufferAhead w) sequence)) env) ! h)
                       = Fulfilled buf))
        \<longrightarrow> (\<exists>w' env'. preloadInitial w sequence env = Some (Inr True, w', env')))"
proof (intro conjI)
  show "\<forall>r w' env'. preloadInitial w sequence env = Some (r, w', env') \<longrightarrow>
      fetches w' =
        fetches w @ filter (\<lambda>stimId. stimId \<notin> set (failedLoads w))
                      (take (bufferAhead w) sequence)
      \<and> (r = Inr True \<or> r = Inl InitialBatchFailed)
      \<and> (r = Inr True \<longrightarrow>
           fetches w' = fetches w @ take (bufferAhead w) sequence
           \<and> (\<forall>h. length (promises w) \<le> h \<and>
                   h < length (promises w) + length (take (bufferAhead w) sequence) \<longrightarrow>
                   (\<exists>buf. snd (promises w' ! h) = Fulfilled buf))
           \<and> (\<forall>stimId\<in>set (take (bufferAhead w) sequence).
                \<exists>buf. map_of (audioBuffers w') stimId = Some buf \<and>
                  (\<forall>showPauseUI env2.
                     getAudioBuffer w' stimId showPauseUI env2 = Some (Inr buf, w', env2))))
      \<and> (r = Inl InitialBatchFailed \<longrightarrow>
           (\<exists>stimId\<in>set (take (bufferAhead w) sequence). stimId \<in> set (failedLoads w')))"
    by (intro allI impI) (rule preloadInitial_result)
  show "(\<exists>stimId\<in>set (take (bufferAhead w) sequence). stimId \<in> set (failedLoads w))
        \<or> (\<exists>h e. length (promises w) \<le> h
              \<and> h < length (promises w) + length (take (bufferAhead w) sequence)
              \<and> snd (promises (deliver_all (fire w (take (bufferAhead w) sequence)) env) ! h)
                  = Rejected e)
        \<longrightarrow> (\<exists>w' env'. preloadInitial w sequence env = Some (Inl InitialBatchFailed, w', env'))"
    by (intro impI) (rule preloadInitial_fails)
  show "(\<forall>stimId\<in>set (take (bufferAhead w) sequence). stimId \<notin> set (failedLoads w))
        \<and> (\<forall>h. length (promises w) \<le> h
              \<and> h < length (promises w) + length (take (bufferAhead w) sequence) \<longrightarrow>
              (\<exists>buf. snd (promises (deliver_all (fire w (take (bufferAhead w) sequence)) env) ! h)
                       = Fulfilled buf))
        \<longrightarrow> (\<exists>w' env'. preloadInitial w sequence env = Some (Inr True, w', env'))"
    by (intro impI) (elim conjE, rule preloadInitial_succeeds)
qed

theorem preloadInitial_first_window_witness:
  "preloadInitial (new_experiment [''a'', ''b'', ''c'', ''d'']) demo_sequence
     [Settled 0 (Inr (10, 5)), Settled 1 (Inr (20, 5)), Settled 2 (Inr (30, 5))]
     = Some (Inr True, demo_loaded, [])
   \<and> fetches demo_loaded = fetches (new_experiment [''a'', ''b'', ''c'', ''d'']) @
       take (bufferAhead (new_experiment [''a'', ''b'', ''c'', ''d''])) demo_sequence
   \<and> 2 \<in> set (take (bufferAhead (new_experiment [''a'', ''b'', ''c'', ''d''])) demo_sequence)
   \<and> map_of (audioBuffers demo_loaded) 2 = Some 20
   \<and> (\<forall>showPauseUI env2.
         getAudioBuffer demo_loaded 2 showPauseUI env2 = Some (Inr 20, demo_loaded, env2))
   \<and> snd (promises (deliver_all
        (fire (new_experiment [''a'', ''b'', ''c'', ''d''])
           (take (bufferAhead (new_experiment [''a'', ''b'', ''c'', ''d''])) demo_sequence))
        [Settled 0 (Inr (10, 5)), Settled 1 (Inl FetchFailed)]) ! 1) = Rejected FetchFailed
   \<and> (\<exists>w' env'. preloadInitial (new_experiment [''a'', ''b'', ''c'', ''d'']) demo_sequence
          [Settled 0 (Inr (10, 5)), Settled 1 (Inl FetchFailed)]
          = Some (Inl InitialBatchFailed, w', env'))
   \<and> preloadInitial (new_experiment [''a'', ''b'', ''c'', ''d'']) demo_sequence
        [Settled 0 (Inr (10, 5)), Settled 1 (Inl FetchFailed)]
        = Some (Inl InitialBatchFailed, demo_failed_start, [])"
proof -
  define w0 where "w0 = new_experiment [''a'', ''b'', ''c'', ''d'']"
  have 1: "preloadInitial w0 demo_sequence
     [Settled 0 (Inr (10, 5)), Settled 1 (Inr (20, 5)), Settled 2 (Inr (30, 5))]
     = Some (Inr True, demo_loaded, [])"
    unfolding w0_def by code_simp
  note t = preloadInitial_first_window [of w0 demo_sequence
      "[Settled 0 (Inr (10, 5)), Settled 1 (Inr (20, 5)), Settled 2 (Inr (30, 5))]",
      THEN conjunct1, rule_format, OF 1, THEN conjunct2, THEN conjunct2, THEN conjunct1,
      THEN mp, OF refl]
  from t have 2: "fetches demo_loaded = fetches w0 @ take (bufferAhead w0) demo_sequence"
    by (rule conjunct1)
  have 3: "2 \<in> set (take (bufferAhead w0) demo_sequence)"
    unfolding w0_def by code_simp
  have 4: "map_of (audioBuffers demo_loaded) 2 = Some 20"
    by code_simp
  from t [THEN conjunct2, THEN conjunct2, THEN bspec, OF 3] obtain buf where
    b: "map_of (audioBuffers demo_loaded) 2 = Some buf"
    and g: "\<forall>showPauseUI env2.
         getAudioBuffer demo_loaded 2 showPauseUI env2 = Some (Inr buf, demo_loaded, env2)"
    by blast
  from b 4 have "buf = 20"
    by simp
  with g have 5: "\<forall>showPauseUI env2.
         getAudioBuffer demo_loaded 2 showPauseUI env2 = Some (Inr 20, demo_loaded, env2)"
    by simp
  have 6: "snd (promises (deliver_all (fire w0 (take (bufferAhead w0) demo_sequence))
        [Settled 0 (Inr (10, 5)), Settled 1 (Inl FetchFailed)]) ! 1) = Rejected FetchFailed"
    unfolding w0_def by code_simp
  have r: "length (promises w0) \<le> 1 \<and>
           1 < length (promises w0) + length (take (bufferAhead w0) demo_sequence)"
    unfolding w0_def by code_simp
  from r 6 have "\<exists>h e. length (promises w0) \<le> h
              \<and> h < length (promises w0) + length (take (bufferAhead w0) demo_sequence)
              \<and> snd (promises (deliver_all (fire w0 (take (bufferAhead w0) demo_sequence))
                    [Settled 0 (Inr (10, 5)), Settled 1 (Inl FetchFailed)]) ! h) = Rejected e"
    by blast
  then have 7: "\<exists>w' env'. preloadInitial w0 demo_sequence
          [Settled 0 (Inr (10, 5)), Settled 1 (Inl FetchFailed)]
          = Some (Inl InitialBatchFailed, w', env')"
    by (rule preloadInitial_first_window [of w0 demo_sequence
      "[Settled 0 (Inr (10, 5)), Settled 1 (Inl FetchFailed)]",
      THEN conjunct2, THEN conjunct1, THEN mp, OF disjI2])
  have 8: "preloadInitial w0 demo_sequence
        [Settled 0 (Inr (10, 5)), Settled 1 (Inl FetchFailed)]
        = Some (Inl InitialBatchFailed, demo_failed_start, [])"
    unfolding w0_def by code_simp
  from 1 2 3 4 5 6 7 8 show ?thesis
    unfolding w0_def by (intro conjI)
qed

section \<open>The invariant of the preloader\<close>

lemma has_update: "has (AList.update k v al) x \<longleftrightarrow> x = k \<or> has al x"
  by (simp add: has_def AList.update_conv')

lemma has_delete: "has (AList.delete k al) x \<longleftrightarrow> x \<noteq> k \<and> has al x"
  by (simp add: has_def AList.delete_conv')

lemma has_in_set: "has al k \<longleftrightarrow> k \<in> fst ` set al"
  by (simp add: has_def map_of_eq_None_iff)

lemma preloader_invariant_iff:
  "preloader_invariant w \<longleftrightarrow>
     in_flight_pending w
     \<and> (\<forall>h<length (promises w). snd (promises w ! h) = Pending \<longrightarrow>
           map_of (loadingPromises w) (fst (promises w ! h)) = Some h)
     \<and> (\<forall>stimId\<in>set (failedLoads w).
           \<not> has (audioBuffers w) stimId \<and> \<not> has (loadingPromises w) stimId)
     \<and> (\<forall>stimId. has (loadingPromises w) stimId \<longrightarrow> \<not> has (audioBuffers w) stimId)"
proof -
  have 1: "list_all (\<lambda>h. snd (promises w ! h) \<noteq> Pending \<or>
                        map_of (loadingPromises w) (fst (promises w ! h)) = Some h)
           [0 ..< length (promises w)] \<longleftrightarrow>
         (\<forall>h<length (promises w). snd (promises w ! h) = Pending \<longrightarrow>
           map_of (loadingPromises w) (fst (promises w ! h)) = Some h)"
    by (auto simp: list_all_iff)
  have 2: "list_all (\<lambda>(stimId, h). \<not> has (audioBuffers w) stimId) (loadingPromises w) \<longleftrightarrow>
        (\<forall>stimId. has (loadingPromises w) stimId \<longrightarrow> \<not> has (audioBuffers w) stimId)"
    by (force simp: list_all_iff has_in_set)
  show ?thesis
    unfolding preloader_invariant_def 1 2 by (simp add: list_all_iff)
qed

lemma preloader_invariant_cong:
  assumes "promises w' = promises w" "loadingPromises w' = loadingPromises w"
    "audioBuffers w' = audioBuffers w" "failedLoads w' = failedLoads w"
  shows "preloader_invariant w' = preloader_invariant w"
  unfolding preloader_invariant_def in_flight_pending_def assms ..


lemma preloader_invariant_callbacks [simp]:
  "preloader_invariant (call_onPause w stimId) = preloader_invariant w"
  "preloader_invariant (call_onResume w) = preloader_invariant w"
  by (rule preloader_invariant_cong; simp)+

lemma has_in_flight_loadAudio:
  "has (loadingPromises (snd (loadAudio w stimId))) x \<longleftrightarrow>
     (x = stimId \<and> stimId \<notin> set (failedLoads w)) \<or> has (loadingPromises w) x"
  by (auto simp: loadAudio_def Let_def has_update)

lemma preloader_invariant_loadAudio:
  assumes "preloader_invariant w"
    and "\<not> has (audioBuffers w) stimId" and "\<not> has (loadingPromises w) stimId"
  shows "preloader_invariant (snd (loadAudio w stimId))"
proof (cases "stimId \<in> set (failedLoads w)")
  case True
  with assms(1) show ?thesis by (simp add: loadAudio_failed)
next
  case False
  note inv = assms(1) [unfolded preloader_invariant_iff]
  define w' where "w' = snd (loadAudio w stimId)"
  have p: "promises w' = promises w @ [(stimId, Pending)]"
    and t: "loadingPromises w' = AList.update stimId (length (promises w)) (loadingPromises w)"
    and c: "audioBuffers w' = audioBuffers w" and f: "failedLoads w' = failedLoads w"
    using False by (simp_all add: w'_def loadAudio_fresh)
  have none: "map_of (loadingPromises w) stimId = None"
    using assms(3) by (simp add: has_def)
  have A: "in_flight_pending w'"
    unfolding w'_def using inv by (intro in_flight_pending_loadAudio) simp
  have B: "map_of (loadingPromises w') (fst (promises w' ! h)) = Some h"
    if "h < length (promises w')" "snd (promises w' ! h) = Pending" for h
  proof (cases "h < length (promises w)")
    case True
    with that have pend: "snd (promises w ! h) = Pending"
      by (simp add: p nth_append)
    with inv True have m: "map_of (loadingPromises w) (fst (promises w ! h)) = Some h"
      by blast
    with none have "fst (promises w ! h) \<noteq> stimId"
      by auto
    with m True show ?thesis
      by (simp add: p t nth_append AList.update_conv')
  next
    case False
    with that(1) have "h = length (promises w)"
      by (simp add: p)
    then show ?thesis
      by (simp add: p t AList.update_conv')
  qed
  have D: "\<not> has (audioBuffers w') x \<and> \<not> has (loadingPromises w') x"
    if "x \<in> set (failedLoads w')" for x
    using that inv False by (auto simp: c f t has_update)
  have E: "\<not> has (audioBuffers w') x" if "has (loadingPromises w') x" for x
    using that inv assms(2) by (auto simp: c t has_update)
  from A B D E show ?thesis
    unfolding preloader_invariant_iff w'_def [symmetric] by blast
qed

lemma preloader_invariant_settle:
  assumes "preloader_invariant w"
  shows "preloader_invariant (settle w h out)"
proof (cases "h < length (promises w) \<and> snd (promises w ! h) = Pending")
  case False
  then have "settle w h out = w"
    by (auto simp: settle_def)
  with assms show ?thesis by simp
next
  case True
  note inv = assms [unfolded preloader_invariant_iff]
  define s where "s = fst (promises w ! h)"
  define w' where "w' = settle w h out"
  from True have ph: "promises w ! h = (s, Pending)"
    by (simp add: s_def prod_eq_iff)
  from inv True have ms: "map_of (loadingPromises w) s = Some h"
    unfolding s_def by blast
  then have hs: "has (loadingPromises w) s"
    by (simp add: has_def)
  with inv have ncs: "\<not> has (audioBuffers w) s"
    by blast
  from hs inv have nfs: "s \<notin> set (failedLoads w)"
    by blast
  have t: "loadingPromises w' = AList.delete s (loadingPromises w)"
    using True by (auto simp: w'_def settle_def Let_def s_def split: sum.splits prod.splits)
  have len: "length (promises w') = length (promises w)"
    by (simp add: w'_def)
  have A: "in_flight_pending w'"
    unfolding w'_def using inv by (intro in_flight_pending_settle) simp
  have B: "map_of (loadingPromises w') (fst (promises w' ! h')) = Some h'"
    if "h' < length (promises w')" "snd (promises w' ! h') = Pending" for h'
  proof -
    have "h' \<noteq> h"
    proof
      assume "h' = h"
      with that(2) settle_this [OF True [THEN conjunct1] ph, of out] show False
        by (cases out) (auto simp: w'_def)
    qed
    then have same: "promises w' ! h' = promises w ! h'"
      by (simp add: w'_def settle_other)
    with that len inv have m: "map_of (loadingPromises w) (fst (promises w ! h')) = Some h'"
      by simp
    with ms \<open>h' \<noteq> h\<close> have "fst (promises w ! h') \<noteq> s"
      by auto
    with m same show ?thesis
      by (simp add: t AList.delete_conv')
  qed
  have cases: "(audioBuffers w' = audioBuffers w \<and> failedLoads w' = set_add (failedLoads w) s)
    \<or> (\<exists>buf. audioBuffers w' = AList.update s buf (audioBuffers w) \<and> failedLoads w' = failedLoads w)"
    using True by (auto simp: w'_def settle_def Let_def s_def split: sum.splits prod.splits)
  have D: "\<not> has (audioBuffers w') x \<and> \<not> has (loadingPromises w') x"
    if "x \<in> set (failedLoads w')" for x
    using that inv cases ncs nfs
    by (auto simp: t has_delete has_update set_add_def split: if_splits)
  have E: "\<not> has (audioBuffers w') x" if "has (loadingPromises w') x" for x
    using that inv cases
    by (auto simp: t has_delete has_update)
  from A B D E show ?thesis
    unfolding preloader_invariant_iff w'_def [symmetric] by blast
qed

lemma preloader_invariant_deliver:
  "preloader_invariant w \<Longrightarrow> preloader_invariant (deliver w ev)"
  by (cases ev) (simp_all add: deliver_def preloader_invariant_settle)


lemma preloader_invariant_deliver_all:
  "preloader_invariant w \<Longrightarrow> preloader_invariant (deliver_all w env)"
  by (induction env arbitrary: w) (simp_all add: preloader_invariant_deliver)

lemma preloader_invariant_await_promise:
  "await_promise w h env = Some (r, w', env') \<Longrightarrow> preloader_invariant w \<Longrightarrow>
     preloader_invariant w'"
proof (induction env arbitrary: w)
  case Nil
  then show ?case by (auto split: option.splits)
next
  case (Cons ev env)
  then show ?case
    by (auto split: option.splits intro: preloader_invariant_deliver)
qed

lemma preloader_invariant_wait_for:
  "wait_for sel w env = Some (a, w', env') \<Longrightarrow> preloader_invariant w \<Longrightarrow>
     preloader_invariant w'"
proof (induction env arbitrary: w)
  case Nil
  then show ?case by simp
next
  case (Cons ev env)
  then show ?case
    by (auto split: option.splits intro: preloader_invariant_deliver)
qed


lemma preloader_invariant_fire:
  assumes "preloader_invariant w" and "distinct ids"
    and "\<forall>x\<in>set ids. \<not> has (audioBuffers w) x \<and> \<not> has (loadingPromises w) x"
  shows "preloader_invariant (fire w ids)"
  using assms
proof (induction ids arbitrary: w)
  case Nil
  then show ?case by simp
next
  case (Cons a ids)
  have 1: "preloader_invariant (snd (loadAudio w a))"
    using Cons.prems by (intro preloader_invariant_loadAudio) simp_all
  have 2: "\<forall>x\<in>set ids. \<not> has (audioBuffers (snd (loadAudio w a))) x \<and>
                          \<not> has (loadingPromises (snd (loadAudio w a))) x"
    using Cons.prems by (auto simp: has_in_flight_loadAudio)
  from Cons.prems have "distinct ids"
    by simp
  from Cons.IH [OF 1 this 2] show ?case
    by simp
qed

lemma distinct_ahead_ids:
  assumes "distinct sequence"
  shows "distinct (ahead_ids w sequence i)"
proof -
  have "map (\<lambda>p. sequence ! p)
          [i + bufferAhead w ..< min (i + 2 * bufferAhead w) (length sequence)] =
        js_slice sequence (int (i + bufferAhead w)) (int (i + 2 * bufferAhead w))"
    by (simp only: js_slice_positions)
  also have "\<dots> = take (i + 2 * bufferAhead w - (i + bufferAhead w)) (drop (i + bufferAhead w) sequence)"
    by (rule js_slice_nat)
  finally show ?thesis
    using assms by (simp add: ahead_ids_def)
qed

lemma preloader_invariant_preloadAhead:
  assumes "preloader_invariant w" and "distinct sequence"
  shows "preloader_invariant (preloadAhead w sequence i)"
  unfolding preloadAhead_fire
  using assms(1) distinct_ahead_ids [OF assms(2)]
  by (rule preloader_invariant_fire) (simp add: ahead_ids_def)

lemma preloader_invariant_getAudioBuffer:
  assumes "getAudioBuffer w stimId showPauseUI env = Some (r, w', env')"
    and "preloader_invariant w"
  shows "preloader_invariant w'"
proof -
  define w1 where "w1 = (if showPauseUI then call_onPause w stimId else w)"
  have w1: "preloader_invariant w1" "audioBuffers w1 = audioBuffers w"
    "loadingPromises w1 = loadingPromises w"
    using assms(2) by (simp_all add: w1_def)
  show ?thesis
  proof (cases "map_of (audioBuffers w) stimId")
    case (Some buf)
    with assms show ?thesis
      by (simp add: getAudioBuffer_def)
  next
    case None
    show ?thesis
    proof (cases "map_of (loadingPromises w) stimId")
      case (Some h)
      with assms(1) None obtain r2 w2 where
        a: "await_promise w1 h env = Some (r2, w2, env')"
        and w': "w' = w2 \<or> w' = call_onResume w2"
        by (auto simp: getAudioBuffer_def w1_def [symmetric] Let_def
            split: option.splits sum.splits if_splits)
      from preloader_invariant_await_promise [OF a w1(1)] w' show ?thesis
        by auto
    next
      case no_load: None
      have 2: "preloader_invariant (snd (loadAudio w1 stimId))"
        using w1 None no_load by (intro preloader_invariant_loadAudio) (simp_all add: has_def)
      show ?thesis
      proof (cases "stimId \<in> set (failedLoads w1)")
        case True
        with assms(1) None no_load w1 show ?thesis
          by (auto simp: getAudioBuffer_def w1_def [symmetric] Let_def loadAudio_failed)
      next
        case False
        define w2 where "w2 = snd (loadAudio w1 stimId)"
        have l: "loadAudio w1 stimId = (Inr (length (promises w1)), w2)"
          using False by (simp add: w2_def loadAudio_fresh)
        from assms(1) None no_load l obtain r3 w3 where
          a: "await_promise w2 (length (promises w1)) env = Some (r3, w3, env')"
          and w': "w' = w3 \<or> w' = call_onResume w3"
          by (auto simp: getAudioBuffer_def w1_def [symmetric] Let_def
              split: option.splits sum.splits if_splits)
        from preloader_invariant_await_promise [OF a 2 [folded w2_def]] w' show ?thesis
          by auto
      qed
    qed
  qed
qed

lemma preloader_invariant_ensureNextTrialReady:
  assumes "ensureNextTrialReady w sequence i env = Some (r, w', env')"
    and "preloader_invariant w"
  shows "preloader_invariant w'"
proof (cases "i < length sequence \<and> \<not> has (audioBuffers w) (sequence ! i)")
  case False
  with assms show ?thesis
    by (auto simp: ensureNextTrialReady_def Let_def split: if_splits)
next
  case True
  with assms(1) obtain r2 w2 where
    g: "getAudioBuffer (call_onPause w (sequence ! i)) (sequence ! i) False env =
          Some (r2, w2, env')"
    and w': "w' = w2 \<or> w' = call_onResume w2"
    by (auto simp: ensureNextTrialReady_def Let_def split: option.splits sum.splits)
  from preloader_invariant_getAudioBuffer [OF g] assms(2) w' show ?thesis
    by auto
qed

lemma has_clearOldBuffers:
  "has (audioBuffers (clearOldBuffers w sequence i k)) x \<Longrightarrow> has (audioBuffers w) x"
  by (simp add: has_def map_of_clearOldBuffers split: if_splits)

lemma preloader_invariant_clearOldBuffers:
  assumes "preloader_invariant w"
  shows "preloader_invariant (clearOldBuffers w sequence i k)"
proof -
  have f: "promises (clearOldBuffers w sequence i k) = promises w"
    "loadingPromises (clearOldBuffers w sequence i k) = loadingPromises w"
    "failedLoads (clearOldBuffers w sequence i k) = failedLoads w"
    by (simp_all add: clearOldBuffers_def)
  show ?thesis
    using assms has_clearOldBuffers [of w sequence i k]
    unfolding preloader_invariant_iff f by auto
qed

lemma preloader_invariant_submitTrialResult:
  assumes "submitTrialResult w t env = Some (v, w', env')" and "preloader_invariant w"
  shows "preloader_invariant w'"
proof -
  from assms(1) obtain ok w1 where
    a: "wait_for (\<lambda>ev. case ev of Posted ok \<Rightarrow> Some ok | _ \<Rightarrow> None) w env = Some (ok, w1, env')"
    and w': "w' = (if ok then w1 else saveToLocalStorage w1 t)"
    by (auto simp: submitTrialResult_def split: option.splits)
  have "preloader_invariant (saveToLocalStorage w1 t) = preloader_invariant w1"
    by (rule preloader_invariant_cong) (simp_all add: saveToLocalStorage_def)
  with preloader_invariant_wait_for [OF a assms(2)] w' show ?thesis
    by simp
qed

lemma preloader_invariant_trial_iteration:
  assumes "trial_iteration w sequence i env = Some (Inr u, w', env')"
    and "preloader_invariant w" and "distinct sequence"
  shows "preloader_invariant w'"
proof -
  from assms(1) obtain ready w1 env1 rt ts w3 env3 v w5 env5 v' where
    e: "ensureNextTrialReady w sequence i env = Some (Inr ready, w1, env1)"
    and t: "runTrial (preloadAhead w1 sequence i) (sequence ! i) env1 =
              Some (Inr (rt, ts), w3, env3)"
    and s: "submitTrialResult
       (w3\<lparr>results := results w3 @
          [\<lparr> trialNumber = i + 1, stimulusId = sequence ! i,
             character = character_of w3 (sequence ! i), reactionTime = rt,
             timestamp = ts, wasPaused = isPaused w3 \<rparr>]\<rparr>)
       \<lparr> trialNumber = i + 1, stimulusId = sequence ! i,
         character = character_of w3 (sequence ! i), reactionTime = rt,
         timestamp = ts, wasPaused = isPaused w3 \<rparr> env3 = Some (v, w5, env5)"
    and b: "sleep (if i mod 10 = 0 \<and> i > 0 then clearOldBuffers w5 sequence i 2 else w5) env5
              = Some (v', w', env')"
    by (rule trial_iteration_cases)
  have 1: "preloader_invariant (preloadAhead w1 sequence i)"
    using preloader_invariant_ensureNextTrialReady [OF e assms(2)] assms(3)
    by (rule preloader_invariant_preloadAhead)
  from t obtain x wa enva buf wb envb where
    ta: "sleep (preloadAhead w1 sequence i) env1 = Some (x, wa, enva)"
    and tb: "getAudioBuffer wa (sequence ! i) True enva = Some (Inr buf, wb, envb)"
    and tc: "waitForResponse wb envb = Some ((rt, ts), w3, env3)"
    by (rule runTrial_cases)
  have "preloader_invariant wa"
    using ta [unfolded sleep_def] 1 by (rule preloader_invariant_wait_for)
  with tb have "preloader_invariant wb"
    by (rule preloader_invariant_getAudioBuffer)
  with tc [unfolded waitForResponse_def] have 3: "preloader_invariant w3"
    by (rule preloader_invariant_wait_for)
  have "preloader_invariant (w3\<lparr>results := results w3 @
          [\<lparr> trialNumber = i + 1, stimulusId = sequence ! i,
             character = character_of w3 (sequence ! i), reactionTime = rt,
             timestamp = ts, wasPaused = isPaused w3 \<rparr>]\<rparr>) = preloader_invariant w3"
    by (rule preloader_invariant_cong) simp_all
  with 3 s have "preloader_invariant w5"
    by (intro preloader_invariant_submitTrialResult [OF s]) simp
  then have "preloader_invariant
               (if i mod 10 = 0 \<and> i > 0 then clearOldBuffers w5 sequence i 2 else w5)"
    by (simp add: preloader_invariant_clearOldBuffers)
  with b [unfolded sleep_def] show ?thesis
    by (rule preloader_invariant_wait_for)
qed



lemma preloader_invariant_iterate_trials:
  "preloader_invariant w \<Longrightarrow> distinct sequence \<Longrightarrow>
     preloader_invariant (iterate_trials w sequence i n env)"
proof (induction n arbitrary: w i env)
  case 0
  then show ?case by simp
next
  case (Suc n)
  show ?case
  proof (cases "trial_iteration w sequence i env")
    case None
    with Suc.prems show ?thesis by simp
  next
    case (Some a)
    obtain r w1 env1 where a: "a = (r, w1, env1)"
      by (cases a)
    show ?thesis
    proof (cases r)
      case (Inl e)
      with Some a Suc.prems show ?thesis by simp
    next
      case (Inr u)
      from preloader_invariant_trial_iteration [OF Some [unfolded a Inr] Suc.prems]
      have "preloader_invariant (iterate_trials w1 sequence (Suc i) n env1)"
        using Suc.prems(2) by (rule Suc.IH)
      with Some a Inr show ?thesis by simp
    qed
  qed
qed

section \<open>One load of a stimulus at a time\<close>




lemma settled_callbacks [simp]:
  "settled (call_onResume w) h = settled w h"
  "settled (call_onPause w stimId) h = settled w h"
  by (simp_all add: settled_def)







section \<open>Stimuli that failed to load, in the running program\<close>

lemma fire_fetches_new:
  "stimId \<in> set (failedLoads w) \<Longrightarrow>
     stimId \<notin> set (drop (length (fetches w)) (fetches (fire w ids)))"
  by (simp add: fire_fetches)

text \<open>
  Claim C6. In every state that satisfies the invariant of the preloader (see the claim
  C1: the states of the running program), for a stimulus in the failed set:
  \<^verbatim>\<open>loadAudio\<close> fails with the \<^verbatim>\<open>previously failed\<close> error and changes nothing;
  \<^verbatim>\<open>getAudioBuffer\<close> fails with the same error, after the pause callback when the
  pause screen is enabled, and nothing is fetched; \<^verbatim>\<open>preloadAhead\<close> fetches nothing
  for it; and the stimulus stays in the failed set through events, \<^verbatim>\<open>preloadAhead\<close>
  and eviction.
\<close>

theorem failed_stimulus_not_fetched_again:
  assumes "preloader_invariant w" and "stimId \<in> set (failedLoads w)"
  shows "loadAudio w stimId = (Inl (PreviouslyFailed stimId), w)
   \<and> (\<forall>showPauseUI env.
         getAudioBuffer w stimId showPauseUI env =
           Some (Inl (PreviouslyFailed stimId),
                 if showPauseUI then call_onPause w stimId else w, env))
   \<and> (\<forall>showPauseUI. fetches (if showPauseUI then call_onPause w stimId else w) = fetches w)
   \<and> stimId \<notin> set (drop (length (fetches w)) (fetches (preloadAhead w sequence i)))
   \<and> (\<forall>ev. stimId \<in> set (failedLoads (deliver w ev)))
   \<and> stimId \<in> set (failedLoads (preloadAhead w sequence i))
   \<and> stimId \<in> set (failedLoads (clearOldBuffers w sequence i k))"
proof -
  note inv = assms(1) [unfolded preloader_invariant_iff]
  from inv assms(2) have n: "\<not> has (audioBuffers w) stimId" "\<not> has (loadingPromises w) stimId"
    by blast+
  have 1: "loadAudio w stimId = (Inl (PreviouslyFailed stimId), w)"
    using assms(2) by (rule loadAudio_failed)
  have 2: "\<forall>showPauseUI env.
         getAudioBuffer w stimId showPauseUI env =
           Some (Inl (PreviouslyFailed stimId),
                 if showPauseUI then call_onPause w stimId else w, env)"
    using getAudioBuffer_failed_uncached [OF assms(2) n] by blast
  have 3: "\<forall>showPauseUI. fetches (if showPauseUI then call_onPause w stimId else w) = fetches w"
    by simp
  have 4: "stimId \<notin> set (drop (length (fetches w)) (fetches (preloadAhead w sequence i)))"
    unfolding preloadAhead_fire using assms(2) by (rule fire_fetches_new)
  have 5: "\<forall>ev. stimId \<in> set (failedLoads (deliver w ev))"
  proof
    fix ev
    show "stimId \<in> set (failedLoads (deliver w ev))"
      using assms(2) by (cases ev) (simp_all add: deliver_def settle_keeps_failed)
  qed
  have 6: "stimId \<in> set (failedLoads (preloadAhead w sequence i))"
    using assms(2) by (simp add: preloadAhead_fire)
  have 7: "stimId \<in> set (failedLoads (clearOldBuffers w sequence i k))"
    using assms(2) by (simp add: clearOldBuffers_def)
  from 1 2 3 4 5 6 7 show ?thesis
    by (intro conjI)
qed

theorem failed_stimulus_not_fetched_again_witness:
  "preloader_invariant long_second \<and> 6 \<in> set (failedLoads long_second)
   \<and> loadAudio long_second 6 = (Inl (PreviouslyFailed 6), long_second)
   \<and> getAudioBuffer long_second 6 False [] = Some (Inl (PreviouslyFailed 6), long_second, [])
   \<and> 6 \<notin> set (drop (length (fetches long_second))
                 (fetches (preloadAhead long_second long_sequence 1)))
   \<and> fetches long_second = [1, 2, 3, 4, 5, 6]"
proof -
  have 1: "preloader_invariant long_second"
    by code_simp
  have 2: "6 \<in> set (failedLoads long_second)"
    by code_simp
  have 3: "fetches long_second = [1, 2, 3, 4, 5, 6]"
    by code_simp
  note t = failed_stimulus_not_fetched_again [OF 1 2, of long_sequence 1 0]
  from t have 4: "loadAudio long_second 6 = (Inl (PreviouslyFailed 6), long_second)"
    by (elim conjE)
  from t have "\<forall>showPauseUI env.
         getAudioBuffer long_second 6 showPauseUI env =
           Some (Inl (PreviouslyFailed 6),
                 if showPauseUI then call_onPause long_second 6 else long_second, env)"
    by (elim conjE)
  from this [rule_format, of False "[]"]
  have 5: "getAudioBuffer long_second 6 False [] = Some (Inl (PreviouslyFailed 6), long_second, [])"
    by simp
  from t have 6: "6 \<notin> set (drop (length (fetches long_second))
                 (fetches (preloadAhead long_second long_sequence 1)))"
    by (elim conjE)
  from 1 2 4 5 6 3 show ?thesis
    by (intro conjI)
qed

end
